theory Spec2Isabelle
  imports Complex_Main "HOL-Library.Multiset"
begin

section \<open>Data model of the graph builder\<close>

text \<open>
  The builder of \<^verbatim>\<open>src/graph/builder.py\<close> keeps one directed graph (a networkx
  \<^verbatim>\<open>DiGraph\<close>). Its node table is an insertion-ordered dictionary from node
  identifiers to attribute dictionaries, and so is its edge table; both are
  association lists here, the position in the list being the insertion order (the
  library iterates edges grouped by source node, which no function of the builder
  observes beyond the set of edges and their attributes).
  Python floats are modelled as exact reals, Python integers as \<^typ>\<open>int\<close>.
\<close>

datatype py_error = KeyError string | ZeroDivisionError

text \<open>An entity of an extraction record: a JSON object whose fields may be absent.\<close>

record entity =
  ent_text :: "string option"
  ent_label :: "string option"
  ent_confidence :: "real option"

text \<open>The attributes \<^verbatim>\<open>add_entity\<close> stores with a node.\<close>

record node_data =
  node_text :: string
  label :: string
  confidence :: real
  sources :: "string list"
  count :: int

text \<open>The attributes \<^verbatim>\<open>add_relationship\<close> stores with an edge
  (\<^verbatim>\<open>type\<close>, \<^verbatim>\<open>weight\<close>, \<^verbatim>\<open>count\<close>).\<close>

record edge_data =
  rel_type :: string
  weight :: real
  edge_count :: int

record graph =
  nodes :: "(string \<times> node_data) list"
  edges :: "((string \<times> string) \<times> edge_data) list"

record config =
  min_confidence :: real
  max_nodes :: int

text \<open>\<^verbatim>\<open>GraphBuilder.__init__\<close>: the defaults of the configuration and the empty graph.\<close>

definition default_config :: config where
  "default_config = \<lparr>min_confidence = 3 / 10, max_nodes = 1000\<rparr>"

definition empty_graph :: graph where
  "empty_graph = \<lparr>nodes = [], edges = []\<rparr>"

text \<open>
  A call either returns the updated graph (\<open>Inr\<close>) or raises (\<open>Inl\<close>); a raise
  carries the graph as the call left it, since the builder mutates it in place.
\<close>

type_synonym outcome = "(py_error \<times> graph) + graph"

subsection \<open>Dictionary helpers\<close>

text \<open>Updating the value stored under a key that is present (the first entry for it).\<close>

fun update_key :: "'k \<Rightarrow> ('v \<Rightarrow> 'v) \<Rightarrow> ('k \<times> 'v) list \<Rightarrow> ('k \<times> 'v) list" where
  "update_key k f [] = []"
| "update_key k f ((k', v) # xs) =
     (if k' = k then (k', f v) # xs else (k', v) # update_key k f xs)"

definition has_node :: "graph \<Rightarrow> string \<Rightarrow> bool" where
  "has_node g n = (n \<in> set (map fst (nodes g)))"

definition has_edge :: "graph \<Rightarrow> string \<Rightarrow> string \<Rightarrow> bool" where
  "has_edge g u v = ((u, v) \<in> set (map fst (edges g)))"

subsection \<open>\<^verbatim>\<open>add_entity\<close>\<close>

text \<open>\<^verbatim>\<open>f"{entity['text']}_{entity['label']}"\<close>\<close>

definition node_id :: "string \<Rightarrow> string \<Rightarrow> string" where
  "node_id t l = t @ ''_'' @ l"

text \<open>\<^verbatim>\<open>entity.get('confidence', 1.0)\<close>\<close>

definition get_confidence :: "entity \<Rightarrow> real" where
  "get_confidence e = (case ent_confidence e of None \<Rightarrow> 1 | Some c \<Rightarrow> c)"

text \<open>\<^verbatim>\<open>sources=[doc_id] if doc_id else []\<close>\<close>

fun initial_sources :: "string option \<Rightarrow> string list" where
  "initial_sources None = []"
| "initial_sources (Some s) = (if s \<noteq> [] then [s] else [])"

text \<open>The first two statements of the update branch: the count is incremented and
  the document is appended to the sources when it is not recorded yet.\<close>

fun append_source :: "string option \<Rightarrow> string list \<Rightarrow> string list" where
  "append_source None srcs = srcs"
| "append_source (Some s) srcs = (if s \<noteq> [] \<and> s \<notin> set srcs then srcs @ [s] else srcs)"

definition bump_node :: "string option \<Rightarrow> node_data \<Rightarrow> node_data" where
  "bump_node doc d = d\<lparr>sources := append_source doc (sources d), count := count d + 1\<rparr>"

text \<open>The last statement of the update branch, on the node already bumped: the
  running average; Python raises on a division by zero. The arithmetic is that of the
  reals here; \<open>add_entity_double\<close> below is the same call with the rounding of the
  floats.\<close>

definition average_node :: "real \<Rightarrow> node_data \<Rightarrow> node_data" where
  "average_node new_conf d =
     d\<lparr>confidence := (confidence d * real_of_int (count d - 1) + new_conf) / real_of_int (count d)\<rparr>"

definition add_entity :: "graph \<Rightarrow> entity \<Rightarrow> string option \<Rightarrow> outcome" where
  "add_entity g e doc =
     (case ent_text e of
        None \<Rightarrow> Inl (KeyError ''text'', g)
      | Some t \<Rightarrow>
         (case ent_label e of
            None \<Rightarrow> Inl (KeyError ''label'', g)
          | Some l \<Rightarrow>
             (if \<not> has_node g (node_id t l) then
                Inr (g\<lparr>nodes := nodes g @
                  [(node_id t l,
                    \<lparr>node_text = t, label = l, confidence = get_confidence e,
                     sources = initial_sources doc, count = 1\<rparr>)]\<rparr>)
              else
                (let g1 = g\<lparr>nodes := update_key (node_id t l) (bump_node doc) (nodes g)\<rparr> in
                 (case map_of (nodes g1) (node_id t l) of
                    None \<Rightarrow> Inl (KeyError (node_id t l), g1)
                  | Some d \<Rightarrow>
                     (if count d = 0 then Inl (ZeroDivisionError, g1)
                      else Inr (g1\<lparr>nodes :=
                        update_key (node_id t l) (average_node (get_confidence e)) (nodes g1)\<rparr>)))))))"

subsection \<open>The floating-point arithmetic of \<^verbatim>\<open>add_entity\<close>\<close>

text \<open>
  A confidence is a Python \<^verbatim>\<open>float\<close>, an IEEE 754 double: a number \<open>m * 2 ^ e\<close> with
  \<open>\<bar>m\<bar> < 2 ^ 53\<close> and \<open>- 1074 \<le> e \<le> 971\<close>. Each operation on floats gives the double
  nearest to the exact result, a tie going to the even \<open>m\<close>; the exponent of the result
  is the largest \<open>e\<close> with \<open>2 ^ (e + 52) \<le> \<bar>x\<bar>\<close>, and \<open>- 1074\<close> below the normal range.
  A result beyond the largest double is \<^verbatim>\<open>inf\<close> in Python (an \<^verbatim>\<open>OverflowError\<close> when
  an integer is converted); such a result is no number and is \<open>None\<close> here.
\<close>


definition pow2 :: "int \<Rightarrow> real" where
  "pow2 k = (if 0 \<le> k then 2 ^ nat k else 1 / 2 ^ nat (- k))"

definition round_even :: "real \<Rightarrow> int" where
  "round_even t =
     (let f = \<lfloor>t\<rfloor> in
      if t - of_int f < 1 / 2 then f
      else if 1 / 2 < t - of_int f then f + 1
      else if even f then f else f + 1)"

fun exponent_from :: "nat \<Rightarrow> real \<Rightarrow> int" where
  "exponent_from 0 a = - 1074"
| "exponent_from (Suc n) a =
     (if pow2 (int (Suc n) - 1022) \<le> a then int (Suc n) - 1074 else exponent_from n a)"

definition double_round :: "real \<Rightarrow> real" where
  "double_round x =
     (let e = exponent_from 2045 \<bar>x\<bar> in
      sgn x * of_int (round_even (\<bar>x\<bar> / pow2 e)) * pow2 e)"

definition max_double :: real where
  "max_double = (2 ^ 53 - 1) * 2 ^ 971"

definition nearest_double :: "real \<Rightarrow> real option" where
  "nearest_double x = (let y = double_round x in if \<bar>y\<bar> \<le> max_double then Some y else None)"

text \<open>
  \<^verbatim>\<open>(old_conf * (node_data['count'] - 1) + new_conf) / node_data['count']\<close> as Python
  evaluates it: the two integers are converted to floats, and the product, the sum and
  the quotient are rounded one after the other.
\<close>

definition average_double :: "real \<Rightarrow> int \<Rightarrow> real \<Rightarrow> real option" where
  "average_double old_conf n new_conf =
     (case nearest_double (of_int (n - 1)) of
        None \<Rightarrow> None
      | Some k \<Rightarrow>
         (case nearest_double (old_conf * k) of
            None \<Rightarrow> None
          | Some p \<Rightarrow>
             (case nearest_double (p + new_conf) of
                None \<Rightarrow> None
              | Some s \<Rightarrow>
                 (case nearest_double (of_int n) of
                    None \<Rightarrow> None
                  | Some c \<Rightarrow> nearest_double (s / c)))))"


text \<open>
  \<^verbatim>\<open>add_entity\<close> with the arithmetic of the floats: the body of \<open>add_entity\<close>, the
  last statement of the update branch rounding as Python does.
\<close>

definition add_entity_double :: "graph \<Rightarrow> entity \<Rightarrow> string option \<Rightarrow> outcome option" where
  "add_entity_double g e doc =
     (case ent_text e of
        None \<Rightarrow> Some (Inl (KeyError ''text'', g))
      | Some t \<Rightarrow>
         (case ent_label e of
            None \<Rightarrow> Some (Inl (KeyError ''label'', g))
          | Some l \<Rightarrow>
             (if \<not> has_node g (node_id t l) then
                Some (Inr (g\<lparr>nodes := nodes g @
                  [(node_id t l,
                    \<lparr>node_text = t, label = l, confidence = get_confidence e,
                     sources = initial_sources doc, count = 1\<rparr>)]\<rparr>))
              else
                (let g1 = g\<lparr>nodes := update_key (node_id t l) (bump_node doc) (nodes g)\<rparr> in
                 (case map_of (nodes g1) (node_id t l) of
                    None \<Rightarrow> Some (Inl (KeyError (node_id t l), g1))
                  | Some d \<Rightarrow>
                     (if count d = 0 then Some (Inl (ZeroDivisionError, g1))
                      else
                        (case average_double (confidence d) (count d) (get_confidence e) of
                           None \<Rightarrow> None
                         | Some c \<Rightarrow>
                            Some (Inr (g1\<lparr>nodes :=
                              update_key (node_id t l) (\<lambda>d. d\<lparr>confidence := c\<rparr>) (nodes g1)\<rparr>)))))))))"

subsection \<open>\<^verbatim>\<open>add_relationship\<close>\<close>

text \<open>\<^verbatim>\<open>[n for n in self.graph.nodes if self.graph.nodes[n]['text'] == source]\<close>:
  the identifiers of the nodes with the given text, in the order of the node table.\<close>

definition nodes_with_text :: "graph \<Rightarrow> string \<Rightarrow> string list" where
  "nodes_with_text g s = map fst (filter (\<lambda>p. node_text (snd p) = s) (nodes g))"

definition bump_edge :: "real \<Rightarrow> edge_data \<Rightarrow> edge_data" where
  "bump_edge w d = d\<lparr>weight := weight d + w, edge_count := edge_count d + 1\<rparr>"

definition add_relationship :: "graph \<Rightarrow> string \<Rightarrow> string \<Rightarrow> string \<Rightarrow> real \<Rightarrow> graph" where
  "add_relationship g source target rtype w =
     (case nodes_with_text g source of
        [] \<Rightarrow> g
      | source_id # _ \<Rightarrow>
         (case nodes_with_text g target of
            [] \<Rightarrow> g
          | target_id # _ \<Rightarrow>
             (if has_edge g source_id target_id then
                g\<lparr>edges := update_key (source_id, target_id) (bump_edge w) (edges g)\<rparr>
              else
                g\<lparr>edges := edges g @
                  [((source_id, target_id), \<lparr>rel_type = rtype, weight = w, edge_count = 1\<rparr>)]\<rparr>)))"

subsection \<open>\<^verbatim>\<open>_add_cooccurrence_edges\<close>\<close>

text \<open>\<^verbatim>\<open>[e['text'] for e in entities if e.get('confidence', 1.0) >= self.min_confidence]\<close>:
  the comprehension raises at the first retained entity without a text.\<close>

fun entity_texts :: "config \<Rightarrow> entity list \<Rightarrow> py_error + string list" where
  "entity_texts cfg [] = Inr []"
| "entity_texts cfg (e # es) =
     (if get_confidence e \<ge> min_confidence cfg then
        (case ent_text e of
           None \<Rightarrow> Inl (KeyError ''text'')
         | Some t \<Rightarrow> (case entity_texts cfg es of Inl x \<Rightarrow> Inl x | Inr ts \<Rightarrow> Inr (t # ts)))
      else entity_texts cfg es)"

text \<open>The inner loop, over \<^verbatim>\<open>entity_texts[i+1:i+5]\<close>, and the outer loop, over the
  positions \<open>i\<close>.\<close>

definition link_targets :: "string \<Rightarrow> string list \<Rightarrow> graph \<Rightarrow> graph" where
  "link_targets source targets g =
     fold (\<lambda>target g'. if source \<noteq> target
                         then add_relationship g' source target ''CO_OCCURS'' (1 / 2)
                         else g') targets g"

definition link_texts :: "string list \<Rightarrow> graph \<Rightarrow> graph" where
  "link_texts ts g =
     fold (\<lambda>i g'. link_targets (ts ! i) (take 4 (drop (i + 1) ts)) g') [0..<length ts] g"

definition add_cooccurrence_edges :: "config \<Rightarrow> graph \<Rightarrow> entity list \<Rightarrow> string option \<Rightarrow> outcome" where
  "add_cooccurrence_edges cfg g entities doc =
     (case entity_texts cfg entities of
        Inl x \<Rightarrow> Inl (x, g)
      | Inr ts \<Rightarrow> Inr (link_texts ts g))"

subsection \<open>Degree centrality and pruning\<close>

text \<open>
  \<^verbatim>\<open>nx.degree_centrality\<close> is library code: the degree of a node of a directed
  graph is its in-degree plus its out-degree, scaled by \<open>1 / (N - 1)\<close>; the library
  gives every node the value 1 when the graph has at most one node. The result is
  a dictionary in the order of the node table.
\<close>

definition degree :: "graph \<Rightarrow> string \<Rightarrow> nat" where
  "degree g n = length (filter (\<lambda>p. fst (fst p) = n) (edges g))
              + length (filter (\<lambda>p. snd (fst p) = n) (edges g))"

definition degree_centrality :: "graph \<Rightarrow> (string \<times> real) list" where
  "degree_centrality g =
     (if length (nodes g) \<le> 1 then map (\<lambda>p. (fst p, 1)) (nodes g)
      else map (\<lambda>p. (fst p, real (degree g (fst p)) * (1 / (real (length (nodes g)) - 1))))
             (nodes g))"

text \<open>\<^verbatim>\<open>sorted(centrality.items(), key=lambda x: x[1], reverse=True)\<close>: Python's sort
  is stable, also under \<^verbatim>\<open>reverse=True\<close>, which is a stable sort on the negated key.\<close>

definition sorted_nodes :: "graph \<Rightarrow> (string \<times> real) list" where
  "sorted_nodes g = sort_key (\<lambda>p. - snd p) (degree_centrality g)"

text \<open>The slice \<^verbatim>\<open>xs[:k]\<close>; a negative \<open>k\<close> counts from the end.\<close>

definition slice_to :: "int \<Rightarrow> 'a list \<Rightarrow> 'a list" where
  "slice_to k xs = (if 0 \<le> k then take (nat k) xs else take (length xs - nat (- k)) xs)"

text \<open>\<^verbatim>\<open>self.graph.subgraph(nodes_to_keep).copy()\<close>: the induced subgraph, first with
  its tables in the order of the original ones; this fixes the nodes, the edges and
  their attributes. The order in which the library lists the nodes of the copy is
  made explicit further down (\<open>subgraph_copy_hashed\<close>), for the property that depends
  on it.\<close>

definition subgraph_copy :: "graph \<Rightarrow> string list \<Rightarrow> graph" where
  "subgraph_copy g keep =
     \<lparr>nodes = filter (\<lambda>p. fst p \<in> set keep) (nodes g),
      edges = filter (\<lambda>p. fst (fst p) \<in> set keep \<and> snd (fst p) \<in> set keep) (edges g)\<rparr>"

definition nodes_to_keep :: "config \<Rightarrow> graph \<Rightarrow> string list" where
  "nodes_to_keep cfg g = map fst (slice_to (max_nodes cfg) (sorted_nodes g))"

definition prune_graph :: "config \<Rightarrow> graph \<Rightarrow> graph" where
  "prune_graph cfg g = subgraph_copy g (nodes_to_keep cfg g)"

text \<open>
  The copy the library makes of an induced subgraph lists the kept nodes in the order
  of the original node table when at least half of the nodes are kept; when fewer are
  kept it lists them in the iteration order of a Python set of the kept identifiers,
  which depends on the hash seed of the run. The seed is a parameter here: a rank for
  every identifier, the set iterating by ascending rank (identifiers of equal rank in
  table order), so that every order of the kept nodes is the order of some rank.
\<close>

definition subgraph_copy_hashed :: "(string \<Rightarrow> nat) \<Rightarrow> graph \<Rightarrow> string list \<Rightarrow> graph" where
  "subgraph_copy_hashed rank g keep =
     (let kept = filter (\<lambda>p. fst p \<in> set keep) (nodes g) in
      \<lparr>nodes = (if 2 * length kept < length (nodes g)
                then sort_key (\<lambda>p. rank (fst p)) kept else kept),
       edges = filter (\<lambda>p. fst (fst p) \<in> set keep \<and> snd (fst p) \<in> set keep) (edges g)\<rparr>)"

definition prune_graph_hashed :: "(string \<Rightarrow> nat) \<Rightarrow> config \<Rightarrow> graph \<Rightarrow> graph" where
  "prune_graph_hashed rank cfg g = subgraph_copy_hashed rank g (nodes_to_keep cfg g)"

text \<open>\<^verbatim>\<open>_get_top_entities\<close>: the display text and the score of the first \<open>n\<close> nodes.\<close>

fun top_texts :: "graph \<Rightarrow> (string \<times> real) list \<Rightarrow> py_error + (string \<times> real) list" where
  "top_texts g [] = Inr []"
| "top_texts g ((node, score) # rest) =
     (case map_of (nodes g) node of
        None \<Rightarrow> Inl (KeyError node)
      | Some d \<Rightarrow> (case top_texts g rest of Inl x \<Rightarrow> Inl x | Inr r \<Rightarrow> Inr ((node_text d, score) # r)))"

definition get_top_entities :: "graph \<Rightarrow> int \<Rightarrow> py_error + (string \<times> real) list" where
  "get_top_entities g n = top_texts g (slice_to n (sorted_nodes g))"

subsection \<open>\<^verbatim>\<open>build_from_extractions\<close>\<close>

text \<open>An extraction file, parsed: the entities of the document and its identifier.\<close>

record extraction =
  doc_entities :: "entity list"
  doc_id :: "string option"

text \<open>The loop over \<^verbatim>\<open>data['entities']\<close> with its confidence filter.\<close>

fun add_entities :: "config \<Rightarrow> graph \<Rightarrow> entity list \<Rightarrow> string option \<Rightarrow> outcome" where
  "add_entities cfg g [] doc = Inr g"
| "add_entities cfg g (e # es) doc =
     (if get_confidence e \<ge> min_confidence cfg then
        (case add_entity g e doc of
           Inl x \<Rightarrow> Inl x
         | Inr g' \<Rightarrow> add_entities cfg g' es doc)
      else add_entities cfg g es doc)"

definition process_file :: "config \<Rightarrow> graph \<Rightarrow> extraction \<Rightarrow> outcome" where
  "process_file cfg g d =
     (case add_entities cfg g (doc_entities d) (doc_id d) of
        Inl x \<Rightarrow> Inl x
      | Inr g' \<Rightarrow> add_cooccurrence_edges cfg g' (doc_entities d) (doc_id d))"

fun process_files :: "config \<Rightarrow> graph \<Rightarrow> extraction list \<Rightarrow> outcome" where
  "process_files cfg g [] = Inr g"
| "process_files cfg g (d # ds) =
     (case process_file cfg g d of
        Inl x \<Rightarrow> Inl x
      | Inr g' \<Rightarrow> process_files cfg g' ds)"

definition build_from_extractions :: "config \<Rightarrow> graph \<Rightarrow> extraction list \<Rightarrow> outcome" where
  "build_from_extractions cfg g files =
     (case process_files cfg g files of
        Inl x \<Rightarrow> Inl x
      | Inr g' \<Rightarrow>
         Inr (if int (length (nodes g')) > max_nodes cfg then prune_graph cfg g' else g'))"

text \<open>The build with the library's order of the pruned copy.\<close>

definition build_from_extractions_hashed ::
    "(string \<Rightarrow> nat) \<Rightarrow> config \<Rightarrow> graph \<Rightarrow> extraction list \<Rightarrow> outcome" where
  "build_from_extractions_hashed rank cfg g files =
     (case process_files cfg g files of
        Inl x \<Rightarrow> Inl x
      | Inr g' \<Rightarrow>
         Inr (if int (length (nodes g')) > max_nodes cfg then prune_graph_hashed rank cfg g' else g'))"

subsection \<open>\<^verbatim>\<open>_prepare_graph_for_graphml\<close>\<close>



text \<open>
  \<^verbatim>\<open>str\<close> of a list of strings is library behaviour: the \<^verbatim>\<open>repr\<close> of each element,
  joined by a comma and a space, in square brackets. The \<^verbatim>\<open>repr\<close> of a string is
  quoted with single quotes, or with double quotes when it holds a single quote and
  no double quote; the quote, the backslash and the characters that are not printable
  are escaped. A character is a code point below 256 here; of these Python takes as
  not printable the controls 0 to 31 and 127 to 159, the no-break space 160 and the
  soft hyphen 173, and writes them as \<^verbatim>\<open>\t\<close>, \<^verbatim>\<open>\n\<close>, \<^verbatim>\<open>\r\<close> or \<^verbatim>\<open>\xNN\<close>.
\<close>

definition printable :: "char \<Rightarrow> bool" where
  "printable c =
     (\<not> ((of_char c :: nat) < 32 \<or> (127 \<le> (of_char c :: nat) \<and> (of_char c :: nat) \<le> 160)
         \<or> (of_char c :: nat) = 173))"

definition hex_digit :: "nat \<Rightarrow> char" where
  "hex_digit n = ''0123456789abcdef'' ! (n mod 16)"

definition repr_char :: "char \<Rightarrow> char \<Rightarrow> string" where
  "repr_char q c =
     (if c = q \<or> c = CHR 0x5C then [CHR 0x5C, c]
      else if c = CHR 0x09 then [CHR 0x5C, CHR ''t'']
      else if c = CHR 0x0A then [CHR 0x5C, CHR ''n'']
      else if c = CHR 0x0D then [CHR 0x5C, CHR ''r'']
      else if \<not> printable c
        then [CHR 0x5C, CHR ''x'', hex_digit (of_char c div 16), hex_digit (of_char c)]
      else [c])"

definition repr_str :: "string \<Rightarrow> string" where
  "repr_str s =
     (let q = (if CHR 0x27 \<in> set s \<and> CHR 0x22 \<notin> set s then CHR 0x22 else CHR 0x27)
      in [q] @ concat (map (repr_char q) s) @ [q])"










section \<open>Notions used to state the properties\<close>

subsection \<open>Identifiers and sequences of calls\<close>

text \<open>The identifier \<^verbatim>\<open>add_entity\<close> computes for an entity; none when the text or
  the label is absent. An entity is well formed when it has both.\<close>

definition entity_key :: "entity \<Rightarrow> string option" where
  "entity_key e =
     (case ent_text e of
        None \<Rightarrow> None
      | Some t \<Rightarrow> (case ent_label e of None \<Rightarrow> None | Some l \<Rightarrow> Some (node_id t l)))"

definition well_formed :: "entity \<Rightarrow> bool" where
  "well_formed e = (ent_text e \<noteq> None \<and> ent_label e \<noteq> None)"

text \<open>A caller's sequence of \<^verbatim>\<open>add_entity\<close> calls; the first raise ends it. The
  confidences observed for a key in such a sequence, in call order.\<close>

fun add_entity_calls :: "graph \<Rightarrow> (entity \<times> string option) list \<Rightarrow> outcome" where
  "add_entity_calls g [] = Inr g"
| "add_entity_calls g ((e, doc) # cs) =
     (case add_entity g e doc of
        Inl x \<Rightarrow> Inl x
      | Inr g' \<Rightarrow> add_entity_calls g' cs)"

definition observed :: "string \<Rightarrow> (entity \<times> string option) list \<Rightarrow> real list" where
  "observed k calls = map (\<lambda>c. get_confidence (fst c)) (filter (\<lambda>c. entity_key (fst c) = Some k) calls)"

text \<open>The operations a caller can run on the builder, and a sequence of them; the
  first raise ends the sequence. A direct \<^verbatim>\<open>add_relationship\<close> call is harmless when
  its two texts differ.\<close>

datatype operation =
  AddEntity entity "string option"
| AddRelationship string string string real
| LinkCooccurrence "entity list" "string option"

fun apply_operation :: "config \<Rightarrow> graph \<Rightarrow> operation \<Rightarrow> outcome" where
  "apply_operation cfg g (AddEntity e doc) = add_entity g e doc"
| "apply_operation cfg g (AddRelationship source target rtype w) =
     Inr (add_relationship g source target rtype w)"
| "apply_operation cfg g (LinkCooccurrence es doc) = add_cooccurrence_edges cfg g es doc"

fun apply_operations :: "config \<Rightarrow> graph \<Rightarrow> operation list \<Rightarrow> outcome" where
  "apply_operations cfg g [] = Inr g"
| "apply_operations cfg g (op # ops) =
     (case apply_operation cfg g op of
        Inl x \<Rightarrow> Inl x
      | Inr g' \<Rightarrow> apply_operations cfg g' ops)"

fun texts_differ :: "operation \<Rightarrow> bool" where
  "texts_differ (AddRelationship source target rtype w) = (source \<noteq> target)"
| "texts_differ (AddEntity e doc) = True"
| "texts_differ (LinkCooccurrence es doc) = True"

text \<open>The graph an outcome leaves behind, whether the call returned or raised.\<close>

fun final_graph :: "outcome \<Rightarrow> graph" where
  "final_graph (Inl (err, g)) = g"
| "final_graph (Inr g) = g"

subsection \<open>Invariants of the graph\<close>

text \<open>
  Identifiers are unique (the node table is a dictionary); occurrence counts are
  positive, as every count written by \<^verbatim>\<open>add_entity\<close> is; no edge is a loop; every
  endpoint of every edge is a node.
\<close>

definition distinct_nodes :: "graph \<Rightarrow> bool" where
  "distinct_nodes g = distinct (map fst (nodes g))"

definition counts_positive :: "graph \<Rightarrow> bool" where
  "counts_positive g = list_all (\<lambda>p. 0 < count (snd p)) (nodes g)"

definition no_self_loops :: "graph \<Rightarrow> bool" where
  "no_self_loops g = list_all (\<lambda>p. fst (fst p) \<noteq> snd (fst p)) (edges g)"

definition loop_free :: "graph \<Rightarrow> bool" where
  "loop_free g = (distinct_nodes g \<and> no_self_loops g)"

definition edges_closed :: "graph \<Rightarrow> bool" where
  "edges_closed g = list_all (\<lambda>p. has_node g (fst (fst p)) \<and> has_node g (snd (fst p))) (edges g)"

subsection \<open>Attribute values\<close>


definition co_occurs :: edge_data where
  "co_occurs = \<lparr>rel_type = ''CO_OCCURS'', weight = 1 / 2, edge_count = 1\<rparr>"

text \<open>One identifier stands before another in a list.\<close>

definition before :: "'a \<Rightarrow> 'a \<Rightarrow> 'a list \<Rightarrow> bool" where
  "before a b xs = (\<exists>i j. i < j \<and> j < length xs \<and> xs ! i = a \<and> xs ! j = b)"

text \<open>Reading a \<^verbatim>\<open>repr\<close> back, as Python's own reader of string literals does: the
  value of a hexadecimal digit, the character an escape stands for, and the decoding
  of the text after the opening quote up to the closing one.\<close>

definition hex_value :: "char \<Rightarrow> nat" where
  "hex_value c = (if (of_char c :: nat) < 58 then of_char c - 48 else of_char c - 87)"

definition unescape :: "char \<Rightarrow> char" where
  "unescape e = (if e = CHR ''t'' then CHR 0x09 else if e = CHR ''n'' then CHR 0x0A
                 else if e = CHR ''r'' then CHR 0x0D else e)"

fun decode_body :: "char \<Rightarrow> string \<Rightarrow> (string \<times> string) option" where
  "decode_body q [] = None"
| "decode_body q (c # cs) =
     (if c = q then Some ([], cs)
      else if c \<noteq> CHR 0x5C then map_option (\<lambda>r. (c # fst r, snd r)) (decode_body q cs)
      else (case cs of
              [] \<Rightarrow> None
            | e # cs1 \<Rightarrow>
               (if e \<noteq> CHR ''x''
                then map_option (\<lambda>r. (unescape e # fst r, snd r)) (decode_body q cs1)
                else (case cs1 of
                        h1 # h2 # cs2 \<Rightarrow>
                          map_option (\<lambda>r. (char_of (16 * hex_value h1 + hex_value h2) # fst r, snd r))
                            (decode_body q cs2)
                      | _ \<Rightarrow> None))))"

definition decode_repr :: "string \<Rightarrow> (string \<times> string) option" where
  "decode_repr s =
     (case s of
        [] \<Rightarrow> None
      | q # cs \<Rightarrow> if q = CHR 0x27 \<or> q = CHR 0x22 then decode_body q cs else None)"


subsection \<open>Sequences of calls over the floats\<close>

text \<open>A caller's sequence of \<^verbatim>\<open>add_entity\<close> calls over the floats; the first raise
  ends it.\<close>

fun add_entity_double_calls :: "graph \<Rightarrow> (entity \<times> string option) list \<Rightarrow> outcome option" where
  "add_entity_double_calls g [] = Some (Inr g)"
| "add_entity_double_calls g ((e, doc) # cs) =
     (case add_entity_double g e doc of
        None \<Rightarrow> None
      | Some (Inl x) \<Rightarrow> Some (Inl x)
      | Some (Inr g') \<Rightarrow> add_entity_double_calls g' cs)"

text \<open>The recurrence \<open>conf' = (conf * (n - 1) + new) / n\<close> over the floats, applied to a
  list of confidences in their order, from a stored confidence and its count; and from
  the first confidence of a list.\<close>

fun running_average :: "real \<Rightarrow> int \<Rightarrow> real list \<Rightarrow> real option" where
  "running_average c n [] = Some c"
| "running_average c n (x # xs) =
     (case average_double c (n + 1) x of
        None \<Rightarrow> None
      | Some c' \<Rightarrow> running_average c' (n + 1) xs)"

fun rounded_mean :: "real list \<Rightarrow> real option" where
  "rounded_mean [] = None"
| "rounded_mean (x # xs) = running_average x 1 xs"

text \<open>Graphs whose counts are positive and at most \<open>B\<close> and whose confidences are at
  most 1 in absolute value, and calls with such confidences.\<close>

definition unit_confidences :: "int \<Rightarrow> graph \<Rightarrow> bool" where
  "unit_confidences B g =
     list_all (\<lambda>p. 0 < count (snd p) \<and> count (snd p) \<le> B \<and> \<bar>confidence (snd p)\<bar> \<le> 1) (nodes g)"

definition unit_calls :: "(entity \<times> string option) list \<Rightarrow> bool" where
  "unit_calls calls = list_all (\<lambda>c. well_formed (fst c) \<and> \<bar>get_confidence (fst c)\<bar> \<le> 1) calls"

section \<open>Sample data\<close>

text \<open>Entities, documents and graphs on which the properties are instantiated.\<close>

definition example_entity :: "string \<Rightarrow> string \<Rightarrow> real \<Rightarrow> entity" where
  "example_entity t l c = \<lparr>ent_text = Some t, ent_label = Some l, ent_confidence = Some c\<rparr>"

definition unscored_entity :: entity where
  "unscored_entity = \<lparr>ent_text = Some ''Ada'', ent_label = Some ''PERSON'', ent_confidence = None\<rparr>"

definition unlabelled_entity :: entity where
  "unlabelled_entity = \<lparr>ent_text = Some ''Ada'', ent_label = None, ent_confidence = None\<rparr>"

definition example_node :: node_data where
  "example_node = \<lparr>node_text = ''Ada'', label = ''PERSON'', confidence = 7 / 10,
                    sources = [''doc1'', ''doc2''], count = 2\<rparr>"

definition example_graph :: graph where
  "example_graph = \<lparr>nodes = [(''Ada_PERSON'', example_node)], edges = []\<rparr>"


definition bob_graph :: graph where
  "bob_graph = \<lparr>nodes = [(''Bob_PERSON'', \<lparr>node_text = ''Bob'', label = ''PERSON'', confidence = 1,
                                           sources = [''doc1''], count = 1\<rparr>)],
                edges = []\<rparr>"

definition ada_ada_bob :: extraction where
  "ada_ada_bob =
     \<lparr>doc_entities = [example_entity ''Ada'' ''PERSON'' 1, example_entity ''Ada'' ''PERSON'' 1,
                      example_entity ''Bob'' ''PERSON'' 1],
      doc_id = Some ''doc1''\<rparr>"

definition ada_bob_graph :: graph where
  "ada_bob_graph =
     \<lparr>nodes = [(''Ada_PERSON'', \<lparr>node_text = ''Ada'', label = ''PERSON'', confidence = 1,
                                  sources = [''doc1''], count = 2\<rparr>),
               (''Bob_PERSON'', \<lparr>node_text = ''Bob'', label = ''PERSON'', confidence = 1,
                                  sources = [''doc1''], count = 1\<rparr>)],
      edges = [((''Ada_PERSON'', ''Bob_PERSON''),
                \<lparr>rel_type = ''CO_OCCURS'', weight = 1, edge_count = 2\<rparr>)]\<rparr>"

definition six_entities :: "entity list" where
  "six_entities = map (\<lambda>t. \<lparr>ent_text = Some t, ent_label = Some ''X'', ent_confidence = None\<rparr>)
                    [''A'', ''B'', ''C'', ''D'', ''E'', ''F'']"

definition six_nodes :: graph where
  "six_nodes =
     \<lparr>nodes = map (\<lambda>t. (t @ ''_X'', \<lparr>node_text = t, label = ''X'', confidence = 1,
                                      sources = [''doc1''], count = 1\<rparr>))
                 [''A'', ''B'', ''C'', ''D'', ''E'', ''F''],
      edges = []\<rparr>"

definition six_linked :: graph where
  "six_linked = six_nodes\<lparr>edges := map (\<lambda>k. (k, co_occurs))
     [(''A_X'', ''B_X''), (''A_X'', ''C_X''), (''A_X'', ''D_X''), (''A_X'', ''E_X''),
      (''B_X'', ''C_X''), (''B_X'', ''D_X''), (''B_X'', ''E_X''), (''B_X'', ''F_X''),
      (''C_X'', ''D_X''), (''C_X'', ''E_X''), (''C_X'', ''F_X''),
      (''D_X'', ''E_X''), (''D_X'', ''F_X''),
      (''E_X'', ''F_X'')]\<rparr>"

text \<open>Two hash seeds: one whose set order puts \<^verbatim>\<open>C_X\<close> first, one that ranks all alike.\<close>

definition c_first :: "string \<Rightarrow> nat" where
  "c_first k = (if k = ''C_X'' then 0 else 1)"

definition all_alike :: "string \<Rightarrow> nat" where
  "all_alike k = 0"

definition six_doc :: extraction where
  "six_doc = \<lparr>doc_entities = six_entities, doc_id = Some ''doc1''\<rparr>"

definition ada :: "real \<Rightarrow> entity \<times> string option" where
  "ada c = (example_entity ''Ada'' ''PERSON'' c, Some ''doc1'')"

section \<open>Properties\<close>

subsection \<open>Dictionaries\<close>

lemma map_fst_update_key: "map fst (update_key k f xs) = map fst xs"
  by (induction xs) auto

lemma map_of_update_key:
  "map_of (update_key k f xs) k' = (if k' = k then map_option f (map_of xs k) else map_of xs k')"
  by (induction xs) auto

lemma map_of_snoc:
  "map_of (xs @ [(k, v)]) k' =
     (case map_of xs k' of Some x \<Rightarrow> Some x | None \<Rightarrow> if k' = k then Some v else None)"
  by (induction xs) auto

lemma has_node_map_of: "has_node g n \<longleftrightarrow> map_of (nodes g) n \<noteq> None"
  by (simp add: has_node_def map_of_eq_None_iff)

subsection \<open>Effect of \<^verbatim>\<open>add_entity\<close> on one key\<close>

lemma add_entity_other_key:
  assumes "add_entity g e doc = Inr g'" and "entity_key e \<noteq> Some k"
  shows "map_of (nodes g') k = map_of (nodes g) k"
  using assms
  by (auto simp: add_entity_def entity_key_def Let_def map_of_update_key map_of_snoc
           simp del: map_of_append split: option.splits if_splits)

lemma add_entity_new_key:
  assumes "entity_key e = Some k" and "map_of (nodes g) k = None"
  shows "\<exists>g' d. add_entity g e doc = Inr g' \<and> map_of (nodes g') k = Some d
           \<and> count d = 1 \<and> confidence d = get_confidence e"
  using assms
  by (auto simp: add_entity_def entity_key_def has_node_map_of map_of_snoc
           simp del: map_of_append split: option.splits)

lemma add_entity_same_key:
  assumes "entity_key e = Some k" and "map_of (nodes g) k = Some d" and "count d + 1 \<noteq> 0"
  shows "\<exists>g' d'. add_entity g e doc = Inr g' \<and> map_of (nodes g') k = Some d'
           \<and> count d' = count d + 1
           \<and> confidence d' = (confidence d * real_of_int (count d' - 1) + get_confidence e) / real_of_int (count d')"
  using assms
  by (auto simp: add_entity_def entity_key_def has_node_map_of Let_def map_of_update_key
        bump_node_def average_node_def split: option.splits)

lemma list_all_update_key:
  "list_all P xs \<Longrightarrow> (\<And>v. P (k, v) \<Longrightarrow> P (k, f v)) \<Longrightarrow> list_all P (update_key k f xs)"
  by (induction xs) auto

lemma map_of_list_all: "list_all P xs \<Longrightarrow> map_of xs k = Some v \<Longrightarrow> P (k, v)"
  by (induction xs) (auto split: if_splits)

lemma add_entity_succeeds:
  assumes "well_formed e" and "counts_positive g"
  shows "\<exists>g'. add_entity g e doc = Inr g' \<and> counts_positive g'"
proof -
  from assms(1) obtain t l where tl: "ent_text e = Some t" "ent_label e = Some l"
    by (auto simp: well_formed_def)
  let ?k = "node_id t l"
  show ?thesis
  proof (cases "has_node g ?k")
    case False
    then show ?thesis using tl assms(2)
      by (simp add: add_entity_def counts_positive_def)
  next
    case True
    then obtain d where d: "map_of (nodes g) ?k = Some d"
      by (auto simp: has_node_map_of)
    have pos: "0 < count d"
      using map_of_list_all[OF assms(2)[unfolded counts_positive_def] d] by simp
    have b: "list_all (\<lambda>p. 0 < count (snd p)) (update_key ?k (bump_node doc) (nodes g))"
      using assms(2) by (auto simp: counts_positive_def bump_node_def intro: list_all_update_key)
    have a: "list_all (\<lambda>p. 0 < count (snd p))
              (update_key ?k (average_node (get_confidence e)) (update_key ?k (bump_node doc) (nodes g)))"
      using b by (auto simp: average_node_def intro: list_all_update_key)
    show ?thesis using True tl d pos a
      by (simp add: add_entity_def Let_def map_of_update_key bump_node_def counts_positive_def)
  qed
qed

lemma add_entity_calls_succeed:
  assumes "list_all (\<lambda>c. well_formed (fst c)) calls" and "counts_positive g"
  shows "\<exists>g'. add_entity_calls g calls = Inr g' \<and> counts_positive g'"
  using assms
proof (induction calls arbitrary: g)
  case Nil
  then show ?case by simp
next
  case (Cons c calls)
  obtain e doc where c: "c = (e, doc)" by (cases c)
  from Cons.prems c have "well_formed e" by simp
  from add_entity_succeeds[OF this Cons.prems(2), of doc]
  obtain g1 where g1: "add_entity g e doc = Inr g1" "counts_positive g1" by auto
  from Cons.IH[OF _ g1(2)] Cons.prems(1) g1(1) c show ?case by auto
qed

subsection \<open>Rounding to the nearest double\<close>

lemma pow2_powi: "pow2 k = 2 powi k"
  by (simp add: pow2_def power_int_def field_simps)

lemma pow2_pos: "0 < pow2 k"
  by (simp add: pow2_def)

lemma pow2_mono: "k \<le> l \<Longrightarrow> pow2 k \<le> pow2 l"
  by (simp add: pow2_powi power_int_increasing)

lemma pow2_strict_mono: "k < l \<Longrightarrow> pow2 k < pow2 l"
  by (simp add: pow2_powi power_int_strict_increasing)

lemma pow2_less_iff: "pow2 k < pow2 l \<longleftrightarrow> k < l"
proof
  assume "pow2 k < pow2 l"
  then show "k < l" using pow2_mono[of l k] by (cases "k < l") simp_all
qed (rule pow2_strict_mono)

lemma pow2_add: "pow2 (k + l) = pow2 k * pow2 l"
  by (simp add: pow2_powi power_int_add)

lemma pow2_nat: "pow2 (int n) = 2 ^ n"
  by (simp add: pow2_def)

lemma round_even_int: "round_even (of_int k) = k"
  by (simp add: round_even_def)

lemma round_even_le: "t \<le> of_int k \<Longrightarrow> round_even t \<le> k"
proof -
  assume t: "t \<le> of_int k"
  then have f: "\<lfloor>t\<rfloor> \<le> k" by (simp add: floor_le_iff) 
  show ?thesis
  proof (cases "\<lfloor>t\<rfloor> = k")
    case True
    then have "t - of_int \<lfloor>t\<rfloor> \<le> 0" using t by simp
    then show ?thesis using True by (simp add: round_even_def Let_def)
  next
    case False
    then have "\<lfloor>t\<rfloor> + 1 \<le> k" using f by simp
    then show ?thesis using f by (simp add: round_even_def Let_def)
  qed
qed

lemma round_even_nonneg: "0 \<le> t \<Longrightarrow> 0 \<le> round_even t"
proof -
  assume "0 \<le> t"
  then have "0 \<le> \<lfloor>t\<rfloor>" by simp
  then show ?thesis by (simp add: round_even_def Let_def)
qed

lemma exponent_from_lower: "- 1074 \<le> exponent_from n a"
  by (induction n) auto

lemma exponent_from_small: "a < 2 ^ 53 \<Longrightarrow> exponent_from n a \<le> 0"
proof (induction n)
  case 0
  then show ?case by simp
next
  case (Suc n)
  show ?case
  proof (cases "pow2 (int (Suc n) - 1022) \<le> a")
    case True
    then have "pow2 (int (Suc n) - 1022) < pow2 53" using Suc.prems by (simp add: pow2_def)
    then have "int (Suc n) - 1022 < 53" by (simp only: pow2_less_iff)
    then show ?thesis using True by simp
  next
    case False
    then show ?thesis using Suc by simp
  qed
qed

lemma exponent_from_eq:
  assumes "- 1074 < e" and "e \<le> int n - 1074" and "pow2 (e + 52) \<le> a" and "a < pow2 (e + 53)"
  shows "exponent_from n a = e"
  using assms
proof (induction n)
  case 0
  then show ?case by simp
next
  case (Suc n)
  show ?case
  proof (cases "pow2 (int (Suc n) - 1022) \<le> a")
    case True
    then have "pow2 (int (Suc n) - 1022) < pow2 (e + 53)" using Suc.prems(4) by simp
    then have "int (Suc n) - 1022 < e + 53" by (simp only: pow2_less_iff)
    then have "e = int (Suc n) - 1074" using Suc.prems(2) by simp
    then show ?thesis using True by simp
  next
    case False
    have "e \<noteq> int (Suc n) - 1074"
    proof
      assume "e = int (Suc n) - 1074"
      then have "e + 52 = int (Suc n) - 1022" by simp
      then have "pow2 (int (Suc n) - 1022) \<le> a" using Suc.prems(3) by (simp only:)
      then show False using False by (simp only:)
    qed
    then have "e \<le> int n - 1074" using Suc.prems(2) by simp
    from Suc.IH[OF Suc.prems(1) this Suc.prems(3,4)] False show ?thesis by simp
  qed
qed

lemma double_round_bounded:
  assumes "\<bar>x\<bar> \<le> of_int M" and "M < 2 ^ 53"
  shows "\<bar>double_round x\<bar> \<le> of_int M"
proof -
  define e where "e = exponent_from 2045 \<bar>x\<bar>"
  define K where "K = nat (- e)"
  have "\<bar>x\<bar> < 2 ^ 53"
  proof -
    have "(of_int M :: real) < of_int (2 ^ 53)" using assms(2) by (simp only: of_int_less_iff)
    then show ?thesis using assms(1) by simp
  qed
  then have e0: "e \<le> 0" unfolding e_def by (rule exponent_from_small)
  then have p: "pow2 e = 1 / 2 ^ K" by (simp add: pow2_def K_def)
  define r where "r = round_even (\<bar>x\<bar> * 2 ^ K)"
  have "\<bar>x\<bar> * 2 ^ K \<le> of_int M * 2 ^ K" using assms(1) by simp
  then have "\<bar>x\<bar> * 2 ^ K \<le> of_int (M * 2 ^ K)" by simp
  then have r1: "r \<le> M * 2 ^ K" unfolding r_def by (rule round_even_le)
  have r0: "0 \<le> r" unfolding r_def by (rule round_even_nonneg) simp
  have dr: "double_round x = sgn x * of_int r / 2 ^ K"
    by (simp add: double_round_def e_def[symmetric] p r_def Let_def)
  have "\<bar>double_round x\<bar> = \<bar>sgn x\<bar> * of_int r / 2 ^ K"
    unfolding dr using r0 by (simp add: abs_mult)
  also have "\<dots> \<le> of_int r / 2 ^ K"
    using r0 by (simp add: abs_sgn_eq divide_right_mono)
  also have "\<dots> \<le> of_int (M * 2 ^ K) / 2 ^ K"
    using r1 by (intro divide_right_mono) (simp_all only: of_int_le_iff, simp)
  also have "\<dots> = of_int M" by simp
  finally show ?thesis .
qed

lemma double_round_int:
  assumes "\<bar>n\<bar> < 2 ^ 53"
  shows "double_round (of_int n) = of_int n"
proof -
  define e where "e = exponent_from 2045 \<bar>of_int n :: real\<bar>"
  define K where "K = nat (- e)"
  have "(of_int \<bar>n\<bar> :: real) < of_int (2 ^ 53)" using assms by (simp only: of_int_less_iff)
  then have "\<bar>of_int n :: real\<bar> < 2 ^ 53" by simp
  then have e0: "e \<le> 0" unfolding e_def by (rule exponent_from_small)
  then have p: "pow2 e = 1 / 2 ^ K" by (simp add: pow2_def K_def)
  have "\<bar>of_int n :: real\<bar> * 2 ^ K = of_int (\<bar>n\<bar> * 2 ^ K)" by simp
  then have r: "round_even (\<bar>of_int n :: real\<bar> * 2 ^ K) = \<bar>n\<bar> * 2 ^ K"
    by (simp only: round_even_int)
  have "double_round (of_int n) = sgn (of_int n) * of_int (\<bar>n\<bar> * 2 ^ K) / 2 ^ K"
    by (simp add: double_round_def e_def[symmetric] p r Let_def del: of_int_mult of_int_abs)
  also have "\<dots> = sgn (of_int n) * \<bar>of_int n\<bar>" by simp
  also have "\<dots> = of_int n" by (simp add: sgn_mult_abs)
  finally show ?thesis .
qed


lemma double_round_eval:
  assumes "0 < x" and "- 1074 < e" and "e \<le> 971"
    and "pow2 (e + 52) \<le> x" and "x < pow2 (e + 53)"
    and "round_even (x / pow2 e) = m" and "y = of_int m * pow2 e"
  shows "double_round x = y"
proof -
  have "exponent_from 2045 x = e"
    by (rule exponent_from_eq) (use assms in simp_all)
  then show ?thesis using assms(1,6,7) by (simp add: double_round_def)
qed

lemma nearest_double_int: "\<bar>n\<bar> < 2 ^ 53 \<Longrightarrow> nearest_double (of_int n) = Some (of_int n)"
proof -
  assume n: "\<bar>n\<bar> < 2 ^ 53"
  then have "(of_int \<bar>n\<bar> :: real) \<le> of_int (2 ^ 53)" by (simp only: of_int_le_iff)
  then have "\<bar>of_int n :: real\<bar> \<le> max_double" by (simp add: max_double_def)
  then show ?thesis using double_round_int[OF n] by (simp add: nearest_double_def)
qed

lemma nearest_double_bounded:
  assumes "\<bar>x\<bar> \<le> of_int M" and "M < 2 ^ 53"
  shows "\<exists>y. nearest_double x = Some y \<and> \<bar>y\<bar> \<le> of_int M"
proof -
  have b: "\<bar>double_round x\<bar> \<le> of_int M" using assms by (rule double_round_bounded)
  have "(of_int M :: real) \<le> of_int (2 ^ 53)" using assms(2) by (simp only: of_int_le_iff)
  then have "\<bar>double_round x\<bar> \<le> max_double" using b by (simp add: max_double_def)
  then show ?thesis using b by (simp add: nearest_double_def)
qed

lemma double_round_1: "double_round (1 / 10) = 3602879701896397 / 36028797018963968"
  by (rule double_round_eval[where e = "-56" and m = 7205759403792794]) (simp_all add: pow2_def round_even_def)

lemma double_round_2: "double_round (1 / 5) = 3602879701896397 / 18014398509481984"
  by (rule double_round_eval[where e = "-55" and m = 7205759403792794]) (simp_all add: pow2_def round_even_def)

lemma double_round_3: "double_round (3 / 10) = 5404319552844595 / 18014398509481984"
  by (rule double_round_eval[where e = "-54" and m = 5404319552844595]) (simp_all add: pow2_def round_even_def)

lemma double_round_4: "double_round (4 / 5) = 3602879701896397 / 4503599627370496"
  by (rule double_round_eval[where e = "-53" and m = 7205759403792794]) (simp_all add: pow2_def round_even_def)

lemma double_round_5: "double_round (3 / 5) = 5404319552844595 / 9007199254740992"
  by (rule double_round_eval[where e = "-53" and m = 5404319552844595]) (simp_all add: pow2_def round_even_def)

lemma double_round_6: "double_round (7 / 10) = 3152519739159347 / 4503599627370496"
  by (rule double_round_eval[where e = "-53" and m = 6305039478318694]) (simp_all add: pow2_def round_even_def)

lemma double_round_7: "double_round (3602879701896397 / 36028797018963968) = 3602879701896397 / 36028797018963968"
  by (rule double_round_eval[where e = "-56" and m = 7205759403792794]) (simp_all add: pow2_def round_even_def)

lemma double_round_8: "double_round (10808639105689191 / 36028797018963968) = 1351079888211149 / 4503599627370496"
  by (rule double_round_eval[where e = "-54" and m = 5404319552844596]) (simp_all add: pow2_def round_even_def)

lemma double_round_9: "double_round (1351079888211149 / 9007199254740992) = 1351079888211149 / 9007199254740992"
  by (rule double_round_eval[where e = "-55" and m = 5404319552844596]) (simp_all add: pow2_def round_even_def)

lemma average_double_1:
  "average_double (3602879701896397 / 36028797018963968) 2 (3602879701896397 / 18014398509481984) = Some (1351079888211149 / 9007199254740992)"
proof -
  have k: "nearest_double (real_of_int (2 - 1)) = Some 1"
    using nearest_double_int[of 1] by simp
  have c: "nearest_double (real_of_int 2) = Some 2"
    using nearest_double_int[of 2] by simp
  have p0: "3602879701896397 / 36028797018963968 * 1 = (3602879701896397 / 36028797018963968 :: real)" by simp
  have p: "nearest_double (3602879701896397 / 36028797018963968 * 1) = Some (3602879701896397 / 36028797018963968)"
    unfolding p0 by (simp add: nearest_double_def double_round_7 max_double_def)
  have s0: "3602879701896397 / 36028797018963968 + 3602879701896397 / 18014398509481984 = (10808639105689191 / 36028797018963968 :: real)" by simp
  have s: "nearest_double (3602879701896397 / 36028797018963968 + 3602879701896397 / 18014398509481984) = Some (1351079888211149 / 4503599627370496)"
    unfolding s0 by (simp add: nearest_double_def double_round_8 max_double_def)
  have q0: "1351079888211149 / 4503599627370496 / 2 = (1351079888211149 / 9007199254740992 :: real)" by simp
  have q: "nearest_double (1351079888211149 / 4503599627370496 / 2) = Some (1351079888211149 / 9007199254740992)"
    unfolding q0 by (simp add: nearest_double_def double_round_9 max_double_def)
  show ?thesis
    unfolding average_double_def by (simp only: k c p s q option.case)
qed

lemma double_round_10: "double_round (1351079888211149 / 4503599627370496) = 1351079888211149 / 4503599627370496"
  by (rule double_round_eval[where e = "-54" and m = 5404319552844596]) (simp_all add: pow2_def round_even_def)

lemma double_round_11: "double_round (10808639105689191 / 18014398509481984) = 1351079888211149 / 2251799813685248"
  by (rule double_round_eval[where e = "-53" and m = 5404319552844596]) (simp_all add: pow2_def round_even_def)

lemma double_round_12: "double_round (1351079888211149 / 6755399441055744) = 7205759403792795 / 36028797018963968"
  by (rule double_round_eval[where e = "-55" and m = 7205759403792795]) (simp_all add: pow2_def round_even_def)

lemma average_double_2:
  "average_double (1351079888211149 / 9007199254740992) 3 (5404319552844595 / 18014398509481984) = Some (7205759403792795 / 36028797018963968)"
proof -
  have k: "nearest_double (real_of_int (3 - 1)) = Some 2"
    using nearest_double_int[of 2] by simp
  have c: "nearest_double (real_of_int 3) = Some 3"
    using nearest_double_int[of 3] by simp
  have p0: "1351079888211149 / 9007199254740992 * 2 = (1351079888211149 / 4503599627370496 :: real)" by simp
  have p: "nearest_double (1351079888211149 / 9007199254740992 * 2) = Some (1351079888211149 / 4503599627370496)"
    unfolding p0 by (simp add: nearest_double_def double_round_10 max_double_def)
  have s0: "1351079888211149 / 4503599627370496 + 5404319552844595 / 18014398509481984 = (10808639105689191 / 18014398509481984 :: real)" by simp
  have s: "nearest_double (1351079888211149 / 4503599627370496 + 5404319552844595 / 18014398509481984) = Some (1351079888211149 / 2251799813685248)"
    unfolding s0 by (simp add: nearest_double_def double_round_11 max_double_def)
  have q0: "1351079888211149 / 2251799813685248 / 3 = (1351079888211149 / 6755399441055744 :: real)" by simp
  have q: "nearest_double (1351079888211149 / 2251799813685248 / 3) = Some (7205759403792795 / 36028797018963968)"
    unfolding q0 by (simp add: nearest_double_def double_round_12 max_double_def)
  show ?thesis
    unfolding average_double_def by (simp only: k c p s q option.case)
qed

lemma double_round_13: "double_round (5404319552844595 / 18014398509481984) = 5404319552844595 / 18014398509481984"
  by (rule double_round_eval[where e = "-54" and m = 5404319552844595]) (simp_all add: pow2_def round_even_def)

lemma double_round_14: "double_round (1 / 2) = 1 / 2"
  by (rule double_round_eval[where e = "-53" and m = 4503599627370496]) (simp_all add: pow2_def round_even_def)

lemma double_round_15: "double_round (1 / 4) = 1 / 4"
  by (rule double_round_eval[where e = "-54" and m = 4503599627370496]) (simp_all add: pow2_def round_even_def)

lemma average_double_3:
  "average_double (5404319552844595 / 18014398509481984) 2 (3602879701896397 / 18014398509481984) = Some (1 / 4)"
proof -
  have k: "nearest_double (real_of_int (2 - 1)) = Some 1"
    using nearest_double_int[of 1] by simp
  have c: "nearest_double (real_of_int 2) = Some 2"
    using nearest_double_int[of 2] by simp
  have p0: "5404319552844595 / 18014398509481984 * 1 = (5404319552844595 / 18014398509481984 :: real)" by simp
  have p: "nearest_double (5404319552844595 / 18014398509481984 * 1) = Some (5404319552844595 / 18014398509481984)"
    unfolding p0 by (simp add: nearest_double_def double_round_13 max_double_def)
  have s0: "5404319552844595 / 18014398509481984 + 3602879701896397 / 18014398509481984 = (1 / 2 :: real)" by simp
  have s: "nearest_double (5404319552844595 / 18014398509481984 + 3602879701896397 / 18014398509481984) = Some (1 / 2)"
    unfolding s0 by (simp add: nearest_double_def double_round_14 max_double_def)
  have q0: "1 / 2 / 2 = (1 / 4 :: real)" by simp
  have q: "nearest_double (1 / 2 / 2) = Some (1 / 4)"
    unfolding q0 by (simp add: nearest_double_def double_round_15 max_double_def)
  show ?thesis
    unfolding average_double_def by (simp only: k c p s q option.case)
qed

lemma double_round_16: "double_round (21617278211378381 / 36028797018963968) = 5404319552844595 / 9007199254740992"
  by (rule double_round_eval[where e = "-53" and m = 5404319552844595]) (simp_all add: pow2_def round_even_def)

lemma double_round_17: "double_round (5404319552844595 / 27021597764222976) = 7205759403792793 / 36028797018963968"
  by (rule double_round_eval[where e = "-55" and m = 7205759403792793]) (simp_all add: pow2_def round_even_def)

lemma average_double_4:
  "average_double (1 / 4) 3 (3602879701896397 / 36028797018963968) = Some (7205759403792793 / 36028797018963968)"
proof -
  have k: "nearest_double (real_of_int (3 - 1)) = Some 2"
    using nearest_double_int[of 2] by simp
  have c: "nearest_double (real_of_int 3) = Some 3"
    using nearest_double_int[of 3] by simp
  have p0: "1 / 4 * 2 = (1 / 2 :: real)" by simp
  have p: "nearest_double (1 / 4 * 2) = Some (1 / 2)"
    unfolding p0 by (simp add: nearest_double_def double_round_14 max_double_def)
  have s0: "1 / 2 + 3602879701896397 / 36028797018963968 = (21617278211378381 / 36028797018963968 :: real)" by simp
  have s: "nearest_double (1 / 2 + 3602879701896397 / 36028797018963968) = Some (5404319552844595 / 9007199254740992)"
    unfolding s0 by (simp add: nearest_double_def double_round_16 max_double_def)
  have q0: "5404319552844595 / 9007199254740992 / 3 = (5404319552844595 / 27021597764222976 :: real)" by simp
  have q: "nearest_double (5404319552844595 / 9007199254740992 / 3) = Some (7205759403792793 / 36028797018963968)"
    unfolding q0 by (simp add: nearest_double_def double_round_17 max_double_def)
  show ?thesis
    unfolding average_double_def by (simp only: k c p s q option.case)
qed

lemma double_round_18: "double_round (3602879701896397 / 4503599627370496) = 3602879701896397 / 4503599627370496"
  by (rule double_round_eval[where e = "-53" and m = 7205759403792794]) (simp_all add: pow2_def round_even_def)

lemma double_round_19: "double_round (12610078956637389 / 9007199254740992) = 3152519739159347 / 2251799813685248"
  by (rule double_round_eval[where e = "-52" and m = 6305039478318694]) (simp_all add: pow2_def round_even_def)

lemma double_round_20: "double_round (3152519739159347 / 4503599627370496) = 3152519739159347 / 4503599627370496"
  by (rule double_round_eval[where e = "-53" and m = 6305039478318694]) (simp_all add: pow2_def round_even_def)

lemma average_double_5:
  "average_double (3602879701896397 / 4503599627370496) 2 (5404319552844595 / 9007199254740992) = Some (3152519739159347 / 4503599627370496)"
proof -
  have k: "nearest_double (real_of_int (2 - 1)) = Some 1"
    using nearest_double_int[of 1] by simp
  have c: "nearest_double (real_of_int 2) = Some 2"
    using nearest_double_int[of 2] by simp
  have p0: "3602879701896397 / 4503599627370496 * 1 = (3602879701896397 / 4503599627370496 :: real)" by simp
  have p: "nearest_double (3602879701896397 / 4503599627370496 * 1) = Some (3602879701896397 / 4503599627370496)"
    unfolding p0 by (simp add: nearest_double_def double_round_18 max_double_def)
  have s0: "3602879701896397 / 4503599627370496 + 5404319552844595 / 9007199254740992 = (12610078956637389 / 9007199254740992 :: real)" by simp
  have s: "nearest_double (3602879701896397 / 4503599627370496 + 5404319552844595 / 9007199254740992) = Some (3152519739159347 / 2251799813685248)"
    unfolding s0 by (simp add: nearest_double_def double_round_19 max_double_def)
  have q0: "3152519739159347 / 2251799813685248 / 2 = (3152519739159347 / 4503599627370496 :: real)" by simp
  have q: "nearest_double (3152519739159347 / 2251799813685248 / 2) = Some (3152519739159347 / 4503599627370496)"
    unfolding q0 by (simp add: nearest_double_def double_round_20 max_double_def)
  show ?thesis
    unfolding average_double_def by (simp only: k c p s q option.case)
qed

lemma double_round_21: "double_round (5404319552844595 / 9007199254740992) = 5404319552844595 / 9007199254740992"
  by (rule double_round_eval[where e = "-53" and m = 5404319552844595]) (simp_all add: pow2_def round_even_def)

lemma average_double_6:
  "average_double (5404319552844595 / 9007199254740992) 2 (3602879701896397 / 4503599627370496) = Some (3152519739159347 / 4503599627370496)"
proof -
  have k: "nearest_double (real_of_int (2 - 1)) = Some 1"
    using nearest_double_int[of 1] by simp
  have c: "nearest_double (real_of_int 2) = Some 2"
    using nearest_double_int[of 2] by simp
  have p0: "5404319552844595 / 9007199254740992 * 1 = (5404319552844595 / 9007199254740992 :: real)" by simp
  have p: "nearest_double (5404319552844595 / 9007199254740992 * 1) = Some (5404319552844595 / 9007199254740992)"
    unfolding p0 by (simp add: nearest_double_def double_round_21 max_double_def)
  have s0: "5404319552844595 / 9007199254740992 + 3602879701896397 / 4503599627370496 = (12610078956637389 / 9007199254740992 :: real)" by simp
  have s: "nearest_double (5404319552844595 / 9007199254740992 + 3602879701896397 / 4503599627370496) = Some (3152519739159347 / 2251799813685248)"
    unfolding s0 by (simp add: nearest_double_def double_round_19 max_double_def)
  have q0: "3152519739159347 / 2251799813685248 / 2 = (3152519739159347 / 4503599627370496 :: real)" by simp
  have q: "nearest_double (3152519739159347 / 2251799813685248 / 2) = Some (3152519739159347 / 4503599627370496)"
    unfolding q0 by (simp add: nearest_double_def double_round_20 max_double_def)
  show ?thesis
    unfolding average_double_def by (simp only: k c p s q option.case)
qed



subsection \<open>The running average over the floats\<close>

lemma average_double_unit:
  assumes "\<bar>old_conf\<bar> \<le> 1" and "\<bar>new_conf\<bar> \<le> 1" and "2 \<le> n" and "n < 2 ^ 53"
  shows "\<exists>c. average_double old_conf n new_conf = Some c \<and> \<bar>c\<bar> \<le> 1"
proof -
  have k: "nearest_double (of_int (n - 1)) = Some (of_int (n - 1))"
    by (rule nearest_double_int) (use assms(3,4) in simp)
  have c: "nearest_double (of_int n) = Some (of_int n)"
    by (rule nearest_double_int) (use assms(3,4) in simp)
  have n1: "(0 :: real) \<le> of_int (n - 1)" using assms(3) by simp
  have "\<bar>old_conf * of_int (n - 1)\<bar> = \<bar>old_conf\<bar> * of_int (n - 1)"
    using n1 by (simp add: abs_mult)
  also have "\<dots> \<le> 1 * of_int (n - 1)"
    using assms(1) n1 by (rule mult_right_mono)
  finally have "\<bar>old_conf * of_int (n - 1)\<bar> \<le> of_int (n - 1)" by simp
  from nearest_double_bounded[OF this] assms(4)
  obtain p where p: "nearest_double (old_conf * of_int (n - 1)) = Some p" "\<bar>p\<bar> \<le> of_int (n - 1)"
    by auto
  have "\<bar>p + new_conf\<bar> \<le> of_int n" using p(2) assms(2) by simp
  from nearest_double_bounded[OF this assms(4)]
  obtain s where s: "nearest_double (p + new_conf) = Some s" "\<bar>s\<bar> \<le> of_int n"
    by auto
  have npos: "(0 :: real) < of_int n" using assms(3) by simp
  have "\<bar>s / of_int n\<bar> = \<bar>s\<bar> / of_int n" using npos by simp
  also have "\<dots> \<le> 1" using s(2) npos by (simp add: field_simps)
  finally have "\<bar>s / of_int n\<bar> \<le> of_int 1" by simp
  from nearest_double_bounded[OF this]
  obtain q where q: "nearest_double (s / of_int n) = Some q" "\<bar>q\<bar> \<le> 1"
    by auto
  show ?thesis unfolding average_double_def using q by (simp only: k c p s option.case) simp
qed

lemma average_double_two:
  assumes "nearest_double c1 = Some c1"
  shows "average_double c1 2 c2
           = (case nearest_double (c1 + c2) of None \<Rightarrow> None | Some s \<Rightarrow> nearest_double (s / 2))"
  using nearest_double_int[of 1] nearest_double_int[of 2] assms
  by (simp add: average_double_def split: option.splits)

lemma average_double_commute:
  assumes "nearest_double c1 = Some c1" and "nearest_double c2 = Some c2"
  shows "average_double c1 2 c2 = average_double c2 2 c1"
  by (simp only: average_double_two[OF assms(1)] average_double_two[OF assms(2)] add.commute[of c1 c2])

subsection \<open>Effect of \<^verbatim>\<open>add_entity\<close> over the floats on one key\<close>

lemma update_key_twice: "update_key k f (update_key k h xs) = update_key k (\<lambda>v. f (h v)) xs"
  by (induction xs) auto

lemma list_all_update_first:
  assumes "list_all P xs" and "\<And>p. P p \<Longrightarrow> Q p" and "\<And>v. map_of xs k = Some v \<Longrightarrow> P (k, v) \<Longrightarrow> Q (k, f v)"
  shows "list_all Q (update_key k f xs)"
  using assms
proof (induction xs)
  case Nil
  then show ?case by simp
next
  case (Cons x xs)
  obtain k' v where x: "x = (k', v)" by (cases x)
  show ?case
  proof (cases "k' = k")
    case True
    have "Q (k, f v)" using Cons.prems(1,3) x True by simp
    moreover have "list_all Q xs" using Cons.prems(1,2) by (simp add: list_all_iff)
    ultimately show ?thesis using x True by simp
  next
    case False
    have "Q (k', v)" using Cons.prems(1,2) x by simp
    moreover have "list_all Q (update_key k f xs)"
    proof (rule Cons.IH)
      show "list_all P xs" using Cons.prems(1) by simp
      show "\<And>p. P p \<Longrightarrow> Q p" by (rule Cons.prems(2))
      show "\<And>v. map_of xs k = Some v \<Longrightarrow> P (k, v) \<Longrightarrow> Q (k, f v)"
        using Cons.prems(3) x False by simp
    qed
    ultimately show ?thesis using x False by simp
  qed
qed

lemma add_entity_double_other_key:
  assumes "add_entity_double g e doc = Some (Inr g')" and "entity_key e \<noteq> Some k"
  shows "map_of (nodes g') k = map_of (nodes g) k"
  using assms
  by (auto simp: add_entity_double_def entity_key_def Let_def map_of_update_key map_of_snoc
           simp del: map_of_append split: option.splits if_splits)

lemma add_entity_double_new_key:
  assumes "entity_key e = Some k" and "map_of (nodes g) k = None"
  shows "\<exists>g' d. add_entity_double g e doc = Some (Inr g') \<and> map_of (nodes g') k = Some d
           \<and> count d = 1 \<and> confidence d = get_confidence e"
  using assms
  by (auto simp: add_entity_double_def entity_key_def has_node_map_of map_of_snoc
           simp del: map_of_append split: option.splits)

lemma add_entity_double_same_key:
  assumes "entity_key e = Some k" and "map_of (nodes g) k = Some d" and "count d + 1 \<noteq> 0"
  shows "add_entity_double g e doc =
           (case average_double (confidence d) (count d + 1) (get_confidence e) of
              None \<Rightarrow> None
            | Some c \<Rightarrow>
               Some (Inr (g\<lparr>nodes := update_key k (\<lambda>d. d\<lparr>confidence := c\<rparr>)
                                      (update_key k (bump_node doc) (nodes g))\<rparr>)))"
  using assms
  by (auto simp: add_entity_double_def entity_key_def has_node_map_of Let_def map_of_update_key
        bump_node_def split: option.splits)

lemma add_entity_double_same_key_stored:
  assumes "entity_key e = Some k" and "map_of (nodes g) k = Some d" and "count d + 1 \<noteq> 0"
    and "average_double (confidence d) (count d + 1) (get_confidence e) = Some c"
  shows "\<exists>g' d'. add_entity_double g e doc = Some (Inr g') \<and> map_of (nodes g') k = Some d'
           \<and> count d' = count d + 1 \<and> confidence d' = c"
  using assms(2,4)
  by (simp add: add_entity_double_same_key[OF assms(1-3)] map_of_update_key bump_node_def)

lemma add_entity_double_same_key_result:
  assumes "add_entity_double g e doc = Some (Inr g')"
    and "entity_key e = Some k" and "map_of (nodes g) k = Some d"
  shows "\<exists>d'. map_of (nodes g') k = Some d' \<and> count d' = count d + 1
           \<and> average_double (confidence d) (count d + 1) (get_confidence e) = Some (confidence d')"
proof -
  have nz: "count d + 1 \<noteq> 0"
  proof
    assume z: "count d + 1 = 0"
    have "add_entity_double g e doc
            = Some (Inl (ZeroDivisionError, g\<lparr>nodes := update_key k (bump_node doc) (nodes g)\<rparr>))"
      using assms(2,3) z
      by (auto simp: add_entity_double_def entity_key_def has_node_map_of Let_def
            map_of_update_key bump_node_def split: option.splits)
    then show False using assms(1) by simp
  qed
  show ?thesis
  proof (cases "average_double (confidence d) (count d + 1) (get_confidence e)")
    case None
    then show ?thesis using assms(1) by (simp add: add_entity_double_same_key[OF assms(2,3) nz])
  next
    case (Some c)
    then show ?thesis using assms(1,3)
      by (auto simp: add_entity_double_same_key[OF assms(2,3) nz] map_of_update_key bump_node_def)
  qed
qed

lemma add_entity_double_succeeds:
  assumes "well_formed e" and "\<bar>get_confidence e\<bar> \<le> 1"
    and "unit_confidences B g" and "0 \<le> B" and "B + 1 < 2 ^ 53"
  shows "\<exists>g'. add_entity_double g e doc = Some (Inr g') \<and> unit_confidences (B + 1) g'"
proof -
  from assms(1) obtain t l where tl: "ent_text e = Some t" "ent_label e = Some l"
    by (auto simp: well_formed_def)
  let ?k = "node_id t l"
  let ?P = "\<lambda>p. 0 < count (snd p) \<and> count (snd p) \<le> B \<and> \<bar>confidence (snd p)\<bar> \<le> 1"
  let ?Q = "\<lambda>p. 0 < count (snd p) \<and> count (snd p) \<le> B + 1 \<and> \<bar>confidence (snd p)\<bar> \<le> 1"
  have key: "entity_key e = Some ?k" using tl by (simp add: entity_key_def)
  have P: "list_all ?P (nodes g)" using assms(3) by (simp add: unit_confidences_def)
  have PQ: "\<And>p. ?P p \<Longrightarrow> ?Q p" by simp
  show ?thesis
  proof (cases "has_node g ?k")
    case False
    have "list_all ?Q (nodes g)" using P by (auto simp: list_all_iff)
    then show ?thesis using False tl assms(2,4)
      by (simp add: add_entity_double_def unit_confidences_def)
  next
    case True
    then obtain d where d: "map_of (nodes g) ?k = Some d"
      by (auto simp: has_node_map_of)
    have Pd: "?P (?k, d)" by (rule map_of_list_all[OF P d])
    then have n: "2 \<le> count d + 1" "count d + 1 < 2 ^ 53" "count d + 1 \<noteq> 0"
      using assms(5) by simp_all
    from average_double_unit[OF _ assms(2) n(1,2), of "confidence d"] Pd
    obtain c where c: "average_double (confidence d) (count d + 1) (get_confidence e) = Some c"
      "\<bar>c\<bar> \<le> 1" by auto
    have "list_all ?Q (update_key ?k (\<lambda>v. (bump_node doc v)\<lparr>confidence := c\<rparr>) (nodes g))"
      using P PQ
    proof (rule list_all_update_first)
      fix v assume "map_of (nodes g) ?k = Some v" and "?P (?k, v)"
      then show "?Q (?k, (bump_node doc v)\<lparr>confidence := c\<rparr>)"
        using c(2) by (simp add: bump_node_def)
    qed
    then show ?thesis
      by (simp add: add_entity_double_same_key[OF key d n(3)] c(1) update_key_twice
            unit_confidences_def)
  qed
qed

lemma add_entity_double_calls_succeed:
  assumes "unit_calls calls" and "unit_confidences B g"
    and "0 \<le> B" and "B + int (length calls) < 2 ^ 53"
  shows "\<exists>g'. add_entity_double_calls g calls = Some (Inr g')
           \<and> unit_confidences (B + int (length calls)) g'"
  using assms
proof (induction calls arbitrary: g B)
  case Nil
  then show ?case by simp
next
  case (Cons c calls)
  obtain e doc where c: "c = (e, doc)" by (cases c)
  from Cons.prems(1) c have e: "well_formed e" "\<bar>get_confidence e\<bar> \<le> 1" and rest: "unit_calls calls"
    by (simp_all add: unit_calls_def)
  have b: "B + 1 < 2 ^ 53" using Cons.prems(4) by simp
  from add_entity_double_succeeds[OF e Cons.prems(2,3) b, of doc]
  obtain g1 where g1: "add_entity_double g e doc = Some (Inr g1)" "unit_confidences (B + 1) g1"
    by auto
  have "0 \<le> B + 1" "B + 1 + int (length calls) < 2 ^ 53"
    using Cons.prems(3,4) by simp_all
  from Cons.IH[OF rest g1(2) this]
  obtain g' where "add_entity_double_calls g1 calls = Some (Inr g')"
    "unit_confidences (B + 1 + int (length calls)) g'" by auto
  then show ?case using g1(1) c by (simp add: add.assoc)
qed

lemma calls_average_from:
  assumes "add_entity_double_calls g calls = Some (Inr g')"
    and "map_of (nodes g) k = Some d"
  shows "\<exists>d'. map_of (nodes g') k = Some d'
           \<and> count d' = count d + int (length (observed k calls))
           \<and> running_average (confidence d) (count d) (observed k calls) = Some (confidence d')"
  using assms
proof (induction calls arbitrary: g d)
  case Nil
  then show ?case by (simp add: observed_def)
next
  case (Cons c calls)
  obtain e doc where c: "c = (e, doc)" by (cases c)
  from Cons.prems(1) c obtain g1 where g1: "add_entity_double g e doc = Some (Inr g1)"
    and rest: "add_entity_double_calls g1 calls = Some (Inr g')"
    by (auto split: option.splits sum.splits)
  show ?case
  proof (cases "entity_key e = Some k")
    case True
    from add_entity_double_same_key_result[OF g1 True Cons.prems(2)]
    obtain d1 where d1: "map_of (nodes g1) k = Some d1" "count d1 = count d + 1"
      "average_double (confidence d) (count d + 1) (get_confidence e) = Some (confidence d1)"
      by auto
    have obs: "observed k (c # calls) = get_confidence e # observed k calls"
      using True c by (simp add: observed_def)
    from Cons.IH[OF rest d1(1)] show ?thesis
      unfolding obs using d1(2,3) by auto
  next
    case False
    have obs: "observed k (c # calls) = observed k calls"
      using False c by (simp add: observed_def)
    from add_entity_double_other_key[OF g1 False] Cons.prems(2)
    have "map_of (nodes g1) k = Some d" by simp
    from Cons.IH[OF rest this] show ?thesis unfolding obs .
  qed
qed

lemma calls_average:
  assumes "add_entity_double_calls g calls = Some (Inr g')"
    and "\<not> has_node g k" and "observed k calls \<noteq> []"
  shows "\<exists>d'. map_of (nodes g') k = Some d'
           \<and> count d' = int (length (observed k calls))
           \<and> rounded_mean (observed k calls) = Some (confidence d')"
  using assms
proof (induction calls arbitrary: g)
  case Nil
  then show ?case by (simp add: observed_def)
next
  case (Cons c calls)
  obtain e doc where c: "c = (e, doc)" by (cases c)
  from Cons.prems(1) c obtain g1 where g1: "add_entity_double g e doc = Some (Inr g1)"
    and rest: "add_entity_double_calls g1 calls = Some (Inr g')"
    by (auto split: option.splits sum.splits)
  show ?case
  proof (cases "entity_key e = Some k")
    case True
    from Cons.prems(2) have none: "map_of (nodes g) k = None" by (simp add: has_node_map_of)
    from add_entity_double_new_key[OF True none, of doc] g1
    obtain d1 where d1: "map_of (nodes g1) k = Some d1" "count d1 = 1"
      "confidence d1 = get_confidence e" by auto
    have obs: "observed k (c # calls) = get_confidence e # observed k calls"
      using True c by (simp add: observed_def)
    from calls_average_from[OF rest d1(1)] show ?thesis
      unfolding obs using d1(2,3) by auto
  next
    case False
    have obs: "observed k (c # calls) = observed k calls"
      using False c by (simp add: observed_def)
    have "\<not> has_node g1 k"
      using add_entity_double_other_key[OF g1 False] Cons.prems(2) by (simp add: has_node_map_of)
    from Cons.IH[OF rest this] Cons.prems(3) obs show ?thesis by simp
  qed
qed

lemma mset_two:
  assumes "mset ys = mset [a, b]"
  shows "ys = [a, b] \<or> ys = [b, a]"
proof -
  have "length ys = 2" using assms by (metis length_Cons list.size(3) size_mset One_nat_def Suc_1)
  then obtain x y where ys: "ys = [x, y]"
    by (metis (no_types) One_nat_def Suc_1 length_0_conv length_Suc_conv)
  with assms have "{#x, y#} = {#a, b#}" by simp
  then show ?thesis unfolding ys by (auto simp: add_eq_conv_ex)
qed

lemma rounded_mean_two_orders:
  assumes "mset ys = mset xs" and "length xs \<le> 2"
    and "\<forall>c \<in> set xs. nearest_double c = Some c"
  shows "rounded_mean ys = rounded_mean xs"
proof -
  consider "xs = []" | a where "xs = [a]" | a b where "xs = [a, b]"
    using assms(2)
    by (cases xs; cases "tl xs"; cases "tl (tl xs)") auto
  then show ?thesis
  proof cases
    case 1
    then show ?thesis using assms(1) by simp
  next
    case 2
    then have "ys = [a]" using assms(1) by simp
    then show ?thesis using 2 by simp
  next
    case 3
    from mset_two[OF assms(1)[unfolded 3]] show ?thesis
    proof
      assume "ys = [a, b]" then show ?thesis using 3 by simp
    next
      assume ys: "ys = [b, a]"
      have "average_double b 2 a = average_double a 2 b"
        by (rule average_double_commute) (use assms(3) 3 in simp_all)
      then show ?thesis using ys 3 by simp
    qed
  qed
qed

lemma ada_calls:
  "unit_calls [ada (double_round (8 / 10)), ada (double_round (6 / 10))]"
  "unit_calls [ada (double_round (6 / 10)), ada (double_round (8 / 10))]"
  "observed ''Ada_PERSON'' [ada (double_round (8 / 10)), ada (double_round (6 / 10))]
     = [3602879701896397 / 4503599627370496, 5404319552844595 / 9007199254740992]"
  "observed ''Ada_PERSON'' [ada (double_round (6 / 10)), ada (double_round (8 / 10))]
     = [5404319552844595 / 9007199254740992, 3602879701896397 / 4503599627370496]"
  by (simp_all add: unit_calls_def ada_def example_entity_def well_formed_def get_confidence_def
        observed_def entity_key_def node_id_def double_round_4 double_round_5)

text \<open>
  C2 (as the code has it). The confidence stored for a key after a sequence of
  \<^verbatim>\<open>add_entity\<close> calls is the recurrence \<open>conf' = (conf * (n - 1) + new) / n\<close> applied
  to the confidences observed for that key in call order, the product, the sum and the
  quotient each rounded to the nearest double; the count is the number of
  observations. For confidences of absolute value at most 1 and fewer than \<open>2 ^ 53\<close>
  observations every call returns and the stored confidence has absolute value at most
  1. Two runs that observe the same confidences store the same count; they store the
  same confidence when there are at most two observations, and 0.8 and 0.6 in either
  order give 0.7 and count 2.
\<close>

theorem rounded_running_mean:
  assumes "unit_calls calls1" and "unit_calls calls2"
    and "unit_confidences B g1" and "unit_confidences B g2" and "0 \<le> B"
    and "B + int (length calls1) < 2 ^ 53" and "B + int (length calls2) < 2 ^ 53"
    and "\<not> has_node g1 k" and "\<not> has_node g2 k"
    and "observed k calls1 \<noteq> []"
    and "mset (observed k calls2) = mset (observed k calls1)"
  shows "\<exists>g1' g2' d1 d2.
           add_entity_double_calls g1 calls1 = Some (Inr g1')
         \<and> add_entity_double_calls g2 calls2 = Some (Inr g2')
         \<and> map_of (nodes g1') k = Some d1 \<and> map_of (nodes g2') k = Some d2
         \<and> count d1 = int (length (observed k calls1)) \<and> count d2 = count d1
         \<and> rounded_mean (observed k calls1) = Some (confidence d1)
         \<and> rounded_mean (observed k calls2) = Some (confidence d2)
         \<and> \<bar>confidence d1\<bar> \<le> 1 \<and> \<bar>confidence d2\<bar> \<le> 1
         \<and> (length (observed k calls1) \<le> 2
              \<and> (\<forall>c \<in> set (observed k calls1). nearest_double c = Some c) \<longrightarrow>
              confidence d2 = confidence d1)
         \<and> (\<forall>g e doc d c. entity_key e = Some k \<and> map_of (nodes g) k = Some d \<and> count d + 1 \<noteq> 0
               \<and> average_double (confidence d) (count d + 1) (get_confidence e) = Some c \<longrightarrow>
               (\<exists>g' d'. add_entity_double g e doc = Some (Inr g') \<and> map_of (nodes g') k = Some d'
                  \<and> count d' = count d + 1 \<and> confidence d' = c))
         \<and> average_double (double_round (8 / 10)) 2 (double_round (6 / 10))
             = Some (double_round (7 / 10))
         \<and> average_double (double_round (6 / 10)) 2 (double_round (8 / 10))
             = Some (double_round (7 / 10))"
proof -
  have step: "\<forall>g e doc d c. entity_key e = Some k \<and> map_of (nodes g) k = Some d \<and> count d + 1 \<noteq> 0
               \<and> average_double (confidence d) (count d + 1) (get_confidence e) = Some c \<longrightarrow>
               (\<exists>g' d'. add_entity_double g e doc = Some (Inr g') \<and> map_of (nodes g') k = Some d'
                  \<and> count d' = count d + 1 \<and> confidence d' = c)"
    using add_entity_double_same_key_stored by blast
  have i1: "average_double (double_round (8 / 10)) 2 (double_round (6 / 10))
             = Some (double_round (7 / 10))"
    by (simp add: double_round_4 double_round_5 double_round_6 average_double_5)
  have i2: "average_double (double_round (6 / 10)) 2 (double_round (8 / 10))
             = Some (double_round (7 / 10))"
    by (simp add: double_round_4 double_round_5 double_round_6 average_double_6)
  from add_entity_double_calls_succeed[OF assms(1,3,5,6)] obtain g1' where
    r1: "add_entity_double_calls g1 calls1 = Some (Inr g1')"
    and u1: "unit_confidences (B + int (length calls1)) g1'" by auto
  from add_entity_double_calls_succeed[OF assms(2,4,5,7)] obtain g2' where
    r2: "add_entity_double_calls g2 calls2 = Some (Inr g2')"
    and u2: "unit_confidences (B + int (length calls2)) g2'" by auto
  have len: "length (observed k calls2) = length (observed k calls1)"
    using assms(11) by (metis size_mset)
  have ne2: "observed k calls2 \<noteq> []" using len assms(10) by auto
  from calls_average[OF r1 assms(8) assms(10)] obtain d1 where
    d1: "map_of (nodes g1') k = Some d1" "count d1 = int (length (observed k calls1))"
      "rounded_mean (observed k calls1) = Some (confidence d1)"
    by auto
  from calls_average[OF r2 assms(9) ne2] obtain d2 where
    d2: "map_of (nodes g2') k = Some d2" "count d2 = int (length (observed k calls2))"
      "rounded_mean (observed k calls2) = Some (confidence d2)"
    by auto
  have c: "count d2 = count d1" using d1(2) d2(2) len by simp
  have b1: "\<bar>confidence d1\<bar> \<le> 1"
    using map_of_list_all[OF u1[unfolded unit_confidences_def] d1(1)] by simp
  have b2: "\<bar>confidence d2\<bar> \<le> 1"
    using map_of_list_all[OF u2[unfolded unit_confidences_def] d2(1)] by simp
  have two: "length (observed k calls1) \<le> 2
              \<and> (\<forall>c \<in> set (observed k calls1). nearest_double c = Some c) \<longrightarrow>
              confidence d2 = confidence d1"
  proof
    assume h: "length (observed k calls1) \<le> 2
              \<and> (\<forall>c \<in> set (observed k calls1). nearest_double c = Some c)"
    have "rounded_mean (observed k calls2) = rounded_mean (observed k calls1)"
      by (rule rounded_mean_two_orders[OF assms(11)]) (use h in simp_all)
    then show "confidence d2 = confidence d1" using d1(3) d2(3) by simp
  qed
  from r1 r2 d1(1) d2(1) d1(2) c d1(3) d2(3) b1 b2 two step i1 i2
  show ?thesis by (intro exI[of _ g1'] exI[of _ g2'] exI[of _ d1] exI[of _ d2] conjI)
qed

theorem rounded_running_mean_witness:
  "unit_calls [ada (double_round (8 / 10)), ada (double_round (6 / 10))]
   \<and> unit_calls [ada (double_round (6 / 10)), ada (double_round (8 / 10))]
   \<and> unit_confidences 0 empty_graph \<and> (\<not> has_node empty_graph ''Ada_PERSON'')
   \<and> observed ''Ada_PERSON'' [ada (double_round (8 / 10)), ada (double_round (6 / 10))]
       = [3602879701896397 / 4503599627370496, 5404319552844595 / 9007199254740992]
   \<and> observed ''Ada_PERSON'' [ada (double_round (6 / 10)), ada (double_round (8 / 10))]
       = [5404319552844595 / 9007199254740992, 3602879701896397 / 4503599627370496]
   \<and> nearest_double (3602879701896397 / 4503599627370496)
       = Some (3602879701896397 / 4503599627370496)
   \<and> nearest_double (5404319552844595 / 9007199254740992)
       = Some (5404319552844595 / 9007199254740992)
   \<and> (\<exists>g1' g2' d1 d2.
         add_entity_double_calls empty_graph
           [ada (double_round (8 / 10)), ada (double_round (6 / 10))] = Some (Inr g1')
       \<and> add_entity_double_calls empty_graph
           [ada (double_round (6 / 10)), ada (double_round (8 / 10))] = Some (Inr g2')
       \<and> map_of (nodes g1') ''Ada_PERSON'' = Some d1
       \<and> map_of (nodes g2') ''Ada_PERSON'' = Some d2
       \<and> count d1 = 2 \<and> confidence d1 = 3152519739159347 / 4503599627370496
       \<and> count d2 = 2 \<and> confidence d2 = 3152519739159347 / 4503599627370496)"
proof -
  let ?c1 = "[ada (double_round (8 / 10)), ada (double_round (6 / 10))]"
  let ?c2 = "[ada (double_round (6 / 10)), ada (double_round (8 / 10))]"
  note o1 = ada_calls(3) and o2 = ada_calls(4)
  have u: "unit_confidences 0 empty_graph" by (simp add: unit_confidences_def empty_graph_def)
  have fresh: "\<not> has_node empty_graph ''Ada_PERSON''" by (simp add: has_node_def empty_graph_def)
  have l1: "0 + int (length ?c1) < 2 ^ 53" and l2: "0 + int (length ?c2) < 2 ^ 53" by simp_all
  have ne: "observed ''Ada_PERSON'' ?c1 \<noteq> []" unfolding o1 by simp
  have ms: "mset (observed ''Ada_PERSON'' ?c2) = mset (observed ''Ada_PERSON'' ?c1)"
    unfolding o1 o2 by simp
  have n1: "nearest_double (3602879701896397 / 4503599627370496)
              = Some (3602879701896397 / 4503599627370496)"
    by (simp add: nearest_double_def double_round_18 max_double_def)
  have n2: "nearest_double (5404319552844595 / 9007199254740992)
              = Some (5404319552844595 / 9007199254740992)"
    by (simp add: nearest_double_def double_round_21 max_double_def)
  from rounded_running_mean[OF ada_calls(1,2) u u order_refl l1 l2 fresh fresh ne ms]
  obtain g1' g2' d1 d2 where r:
    "add_entity_double_calls empty_graph ?c1 = Some (Inr g1')"
    "add_entity_double_calls empty_graph ?c2 = Some (Inr g2')"
    "map_of (nodes g1') ''Ada_PERSON'' = Some d1" "map_of (nodes g2') ''Ada_PERSON'' = Some d2"
    "count d1 = int (length (observed ''Ada_PERSON'' ?c1))" "count d2 = count d1"
    "rounded_mean (observed ''Ada_PERSON'' ?c1) = Some (confidence d1)"
    "rounded_mean (observed ''Ada_PERSON'' ?c2) = Some (confidence d2)"
    by blast
  have v: "count d1 = 2" "count d2 = 2" using r(5,6) unfolding o1 by simp_all
  have "confidence d1 = 3152519739159347 / 4503599627370496"
    using r(7) unfolding o1 by (simp add: average_double_5)
  moreover have "confidence d2 = 3152519739159347 / 4503599627370496"
    using r(8) unfolding o2 by (simp add: average_double_6)
  ultimately have "\<exists>g1' g2' d1 d2.
         add_entity_double_calls empty_graph ?c1 = Some (Inr g1')
       \<and> add_entity_double_calls empty_graph ?c2 = Some (Inr g2')
       \<and> map_of (nodes g1') ''Ada_PERSON'' = Some d1
       \<and> map_of (nodes g2') ''Ada_PERSON'' = Some d2
       \<and> count d1 = 2 \<and> confidence d1 = 3152519739159347 / 4503599627370496
       \<and> count d2 = 2 \<and> confidence d2 = 3152519739159347 / 4503599627370496"
    using r(1-4) v by (intro exI[of _ g1'] exI[of _ g2'] exI[of _ d1] exI[of _ d2] conjI)
  with ada_calls u fresh n1 n2 show ?thesis by (intro conjI)
qed

text \<open>
  The confidences 0.1, 0.2 and 0.3 observed in this order leave
  \<^verbatim>\<open>0.20000000000000004\<close> and in the reverse order \<^verbatim>\<open>0.19999999999999998\<close>; neither
  is their mean, which is no double, nor the double nearest to it, 0.2.
\<close>

theorem rounded_mean_order_counterexample:
  "add_entity_double_calls empty_graph
     [ada (double_round (1 / 10)), ada (double_round (2 / 10)), ada (double_round (3 / 10))]
     = Some (Inr \<lparr>nodes = [(''Ada_PERSON'',
          \<lparr>node_text = ''Ada'', label = ''PERSON'',
           confidence = 7205759403792795 / 36028797018963968,
           sources = [''doc1''], count = 3\<rparr>)], edges = []\<rparr>)
   \<and> add_entity_double_calls empty_graph
       [ada (double_round (3 / 10)), ada (double_round (2 / 10)), ada (double_round (1 / 10))]
     = Some (Inr \<lparr>nodes = [(''Ada_PERSON'',
          \<lparr>node_text = ''Ada'', label = ''PERSON'',
           confidence = 7205759403792793 / 36028797018963968,
           sources = [''doc1''], count = 3\<rparr>)], edges = []\<rparr>)
   \<and> (double_round (1 / 10) + double_round (2 / 10) + double_round (3 / 10)) / 3
     = 21617278211378381 / 108086391056891904
   \<and> double_round (21617278211378381 / 108086391056891904)
     = 7205759403792794 / 36028797018963968
   \<and> double_round (2 / 10) = 7205759403792794 / 36028797018963968"
proof -
  have a: "add_entity_double_calls empty_graph
     [ada (double_round (1 / 10)), ada (double_round (2 / 10)), ada (double_round (3 / 10))]
     = Some (Inr \<lparr>nodes = [(''Ada_PERSON'',
          \<lparr>node_text = ''Ada'', label = ''PERSON'',
           confidence = 7205759403792795 / 36028797018963968,
           sources = [''doc1''], count = 3\<rparr>)], edges = []\<rparr>)"
    by (simp add: add_entity_double_def ada_def example_entity_def empty_graph_def node_id_def
          has_node_def get_confidence_def Let_def bump_node_def double_round_1 double_round_2
          double_round_3 average_double_1 average_double_2)
  have b: "add_entity_double_calls empty_graph
       [ada (double_round (3 / 10)), ada (double_round (2 / 10)), ada (double_round (1 / 10))]
     = Some (Inr \<lparr>nodes = [(''Ada_PERSON'',
          \<lparr>node_text = ''Ada'', label = ''PERSON'',
           confidence = 7205759403792793 / 36028797018963968,
           sources = [''doc1''], count = 3\<rparr>)], edges = []\<rparr>)"
    by (simp add: add_entity_double_def ada_def example_entity_def empty_graph_def node_id_def
          has_node_def get_confidence_def Let_def bump_node_def double_round_1 double_round_2
          double_round_3 average_double_3 average_double_4)
  have m: "(double_round (1 / 10) + double_round (2 / 10) + double_round (3 / 10)) / 3
     = 21617278211378381 / 108086391056891904"
    by (simp add: double_round_1 double_round_2 double_round_3)
  have n: "double_round (21617278211378381 / 108086391056891904)
     = 7205759403792794 / 36028797018963968"
    by (rule double_round_eval[where e = "-55" and m = 7205759403792794])
       (simp_all add: pow2_def round_even_def)
  have t: "double_round (2 / 10) = 7205759403792794 / 36028797018963968"
    by (simp add: double_round_2)
  from a b m n t show ?thesis by (intro conjI)
qed

subsection \<open>The flat export\<close>







subsection \<open>Entities without a confidence\<close>

text \<open>
  C10. An entity whose confidence is absent counts as one of confidence 1:
  \<^verbatim>\<open>add_entity\<close> treats it as the same entity with confidence 1, it passes the
  ingestion filter and the filter of the co-occurrence linking for every
  \<^verbatim>\<open>min_confidence\<close> up to 1, a new node stores confidence 1, and a merge folds 1
  into the running mean.
\<close>

theorem absent_confidence_is_one:
  assumes "ent_confidence e = None"
  shows "get_confidence e = 1
       \<and> add_entity g e doc = add_entity g (e\<lparr>ent_confidence := Some 1\<rparr>) doc
       \<and> (min_confidence cfg \<le> 1 \<longrightarrow>
            get_confidence e \<ge> min_confidence cfg
          \<and> add_entities cfg g (e # es) doc =
              (case add_entity g e doc of Inl x \<Rightarrow> Inl x | Inr g' \<Rightarrow> add_entities cfg g' es doc)
          \<and> entity_texts cfg (e # es) =
              (case ent_text e of
                 None \<Rightarrow> Inl (KeyError ''text'')
               | Some t \<Rightarrow> (case entity_texts cfg es of Inl x \<Rightarrow> Inl x | Inr ts \<Rightarrow> Inr (t # ts))))
       \<and> (entity_key e = Some k \<and> \<not> has_node g k \<longrightarrow>
            (\<exists>g' d. add_entity g e doc = Inr g' \<and> map_of (nodes g') k = Some d
                \<and> confidence d = 1 \<and> count d = 1))
       \<and> (entity_key e = Some k \<and> map_of (nodes g) k = Some d0 \<and> count d0 + 1 \<noteq> 0 \<longrightarrow>
            (\<exists>g' d. add_entity g e doc = Inr g' \<and> map_of (nodes g') k = Some d
                \<and> count d = count d0 + 1
                \<and> confidence d = (confidence d0 * real_of_int (count d0) + 1) / real_of_int (count d0 + 1)))"
proof -
  have one: "get_confidence e = 1" using assms by (simp add: get_confidence_def)
  have same: "add_entity g e doc = add_entity g (e\<lparr>ent_confidence := Some 1\<rparr>) doc"
    using assms by (simp add: add_entity_def get_confidence_def Let_def split: option.splits)
  have new: "entity_key e = Some k \<and> \<not> has_node g k \<longrightarrow>
            (\<exists>g' d. add_entity g e doc = Inr g' \<and> map_of (nodes g') k = Some d
                \<and> confidence d = 1 \<and> count d = 1)"
    using add_entity_new_key[of e k g doc] one by (auto simp: has_node_map_of)
  have merge: "entity_key e = Some k \<and> map_of (nodes g) k = Some d0 \<and> count d0 + 1 \<noteq> 0 \<longrightarrow>
            (\<exists>g' d. add_entity g e doc = Inr g' \<and> map_of (nodes g') k = Some d
                \<and> count d = count d0 + 1
                \<and> confidence d = (confidence d0 * real_of_int (count d0) + 1) / real_of_int (count d0 + 1))"
    using add_entity_same_key[of e k g d0 doc] one by auto
  show ?thesis using one same new merge by simp
qed

theorem absent_confidence_is_one_witness:
  "ent_confidence unscored_entity = None \<and> min_confidence default_config \<le> 1
   \<and> entity_key unscored_entity = Some ''Ada_PERSON''
   \<and> (\<not> has_node empty_graph ''Ada_PERSON'')
   \<and> (\<exists>g' d. add_entity empty_graph unscored_entity (Some ''doc1'') = Inr g'
         \<and> map_of (nodes g') ''Ada_PERSON'' = Some d \<and> confidence d = 1 \<and> count d = 1)
   \<and> map_of (nodes example_graph) ''Ada_PERSON'' = Some example_node
   \<and> count example_node + 1 \<noteq> 0
   \<and> (\<exists>g' d. add_entity example_graph unscored_entity (Some ''doc3'') = Inr g'
         \<and> map_of (nodes g') ''Ada_PERSON'' = Some d \<and> count d = 3 \<and> confidence d = 4 / 5)"
proof -
  have h: "ent_confidence unscored_entity = None" by (simp add: unscored_entity_def)
  have k: "entity_key unscored_entity = Some ''Ada_PERSON''"
    by (simp add: unscored_entity_def entity_key_def node_id_def)
  have fresh: "\<not> has_node empty_graph ''Ada_PERSON''"
    by (simp add: has_node_def empty_graph_def)
  have old: "map_of (nodes example_graph) ''Ada_PERSON'' = Some example_node"
    by (simp add: example_graph_def)
  have nz: "count example_node + 1 \<noteq> 0" by (simp add: example_node_def)
  have m: "min_confidence default_config \<le> 1" by (simp add: default_config_def)
  from absent_confidence_is_one[OF h, of empty_graph "Some ''doc1''" default_config "[]"
      "''Ada_PERSON''" example_node] k fresh
  have new: "\<exists>g' d. add_entity empty_graph unscored_entity (Some ''doc1'') = Inr g'
         \<and> map_of (nodes g') ''Ada_PERSON'' = Some d \<and> confidence d = 1 \<and> count d = 1"
    by blast
  from absent_confidence_is_one[OF h, of example_graph "Some ''doc3''" default_config "[]"
      "''Ada_PERSON''" example_node] k old nz
  have "\<exists>g' d. add_entity example_graph unscored_entity (Some ''doc3'') = Inr g'
         \<and> map_of (nodes g') ''Ada_PERSON'' = Some d \<and> count d = count example_node + 1
         \<and> confidence d = (confidence example_node * real_of_int (count example_node) + 1)
              / real_of_int (count example_node + 1)"
    by blast
  then have merge: "\<exists>g' d. add_entity example_graph unscored_entity (Some ''doc3'') = Inr g'
         \<and> map_of (nodes g') ''Ada_PERSON'' = Some d \<and> count d = 3 \<and> confidence d = 4 / 5"
    by (simp add: example_node_def)
  show ?thesis using h m k fresh new old nz merge by blast
qed

subsection \<open>\<^verbatim>\<open>add_relationship\<close>\<close>




lemma add_relationship_nodes [simp]: "nodes (add_relationship g s t r w) = nodes g"
  by (simp add: add_relationship_def split: list.splits)





subsection \<open>Node identifiers\<close>

lemma add_entity_keys:
  assumes "add_entity g e doc = Inr g'"
  shows "\<exists>k. entity_key e = Some k
           \<and> map fst (nodes g') = (if has_node g k then map fst (nodes g) else map fst (nodes g) @ [k])
           \<and> edges g' = edges g"
proof -
  from assms obtain t l where tl: "ent_text e = Some t" "ent_label e = Some l"
    by (cases "ent_text e"; cases "ent_label e") (simp_all add: add_entity_def)
  have k: "entity_key e = Some (node_id t l)" using tl by (simp add: entity_key_def)
  show ?thesis
  proof (cases "has_node g (node_id t l)")
    case False
    with assms tl k show ?thesis by (auto simp: add_entity_def)
  next
    case True
    with assms tl have "map fst (nodes g') = map fst (nodes g) \<and> edges g' = edges g"
      by (auto simp: add_entity_def Let_def map_fst_update_key split: option.splits if_splits)
    with True k show ?thesis by simp
  qed
qed

lemma add_entity_raise:
  assumes "add_entity g e doc = Inl (err, g1)"
  shows "map fst (nodes g1) = map fst (nodes g) \<and> edges g1 = edges g"
proof (cases "ent_text e")
  case None
  with assms show ?thesis by (simp add: add_entity_def)
next
  case (Some t)
  show ?thesis
  proof (cases "ent_label e")
    case None
    with assms Some show ?thesis by (simp add: add_entity_def)
  next
    case (Some l)
    show ?thesis
    proof (cases "has_node g (node_id t l)")
      case False
      with assms \<open>ent_text e = Some t\<close> Some show ?thesis by (simp add: add_entity_def)
    next
      case True
      with assms \<open>ent_text e = Some t\<close> Some show ?thesis
        by (auto simp: add_entity_def Let_def map_fst_update_key split: option.splits if_splits)
    qed
  qed
qed

lemma add_entity_distinct:
  assumes "distinct_nodes g"
  shows "distinct_nodes (final_graph (add_entity g e doc))"
proof (cases "add_entity g e doc")
  case (Inl x)
  then obtain err g1 where "add_entity g e doc = Inl (err, g1)" by (cases x) auto
  with add_entity_raise[OF this] assms show ?thesis by (simp add: distinct_nodes_def)
next
  case (Inr g')
  with add_entity_keys[OF Inr] assms show ?thesis
    by (auto simp: distinct_nodes_def has_node_def split: if_splits)
qed

lemma node_id_same_text: "node_id t l1 = node_id t l2 \<longleftrightarrow> l1 = l2"
  by (simp add: node_id_def)

lemma takeWhile_sep: "c \<notin> set t \<Longrightarrow> takeWhile (\<lambda>x. x \<noteq> c) (t @ c # l) = t"
  by (induction t) auto

lemma node_id_inj_text:
  assumes "CHR ''_'' \<notin> set t1" and "CHR ''_'' \<notin> set t2"
  shows "node_id t1 l1 = node_id t2 l2 \<longleftrightarrow> t1 = t2 \<and> l1 = l2"
proof
  assume eq: "node_id t1 l1 = node_id t2 l2"
  then have "takeWhile (\<lambda>x. x \<noteq> CHR ''_'') (t1 @ CHR ''_'' # l1)
           = takeWhile (\<lambda>x. x \<noteq> CHR ''_'') (t2 @ CHR ''_'' # l2)"
    by (simp add: node_id_def)
  then have "t1 = t2" using assms by (simp add: takeWhile_sep)
  with eq show "t1 = t2 \<and> l1 = l2" by (simp add: node_id_def)
qed simp

lemma node_id_inj_label:
  assumes "CHR ''_'' \<notin> set l1" and "CHR ''_'' \<notin> set l2"
  shows "node_id t1 l1 = node_id t2 l2 \<longleftrightarrow> t1 = t2 \<and> l1 = l2"
proof
  assume eq: "node_id t1 l1 = node_id t2 l2"
  then have "rev (node_id t1 l1) = rev (node_id t2 l2)" by simp
  then have "takeWhile (\<lambda>x. x \<noteq> CHR ''_'') (rev l1 @ CHR ''_'' # rev t1)
           = takeWhile (\<lambda>x. x \<noteq> CHR ''_'') (rev l2 @ CHR ''_'' # rev t2)"
    by (simp add: node_id_def)
  then have "rev l1 = rev l2" using assms by (simp add: takeWhile_sep)
  with eq show "t1 = t2 \<and> l1 = l2" by (simp add: node_id_def)
qed simp

text \<open>
  C5 (as the code has it). Both entities are stored under the string
  \<^verbatim>\<open>text_label\<close>: two entities new to the graph make one node when their joined
  strings are equal (its count is then 2) and two nodes otherwise. The same text with
  different labels gives different strings; pairs whose texts hold no underscore, or
  whose labels hold none, give equal strings only when the pairs are equal.
\<close>

theorem node_identity_is_joined_string:
  assumes "ent_text e1 = Some t1" and "ent_label e1 = Some l1"
    and "ent_text e2 = Some t2" and "ent_label e2 = Some l2"
    and "\<not> has_node g (node_id t1 l1)" and "\<not> has_node g (node_id t2 l2)"
  shows "\<exists>g'. add_entity_calls g [(e1, doc1), (e2, doc2)] = Inr g'
         \<and> map fst (nodes g') =
             map fst (nodes g) @ (if node_id t1 l1 = node_id t2 l2 then [node_id t1 l1]
                                  else [node_id t1 l1, node_id t2 l2])
         \<and> (node_id t1 l1 = node_id t2 l2 \<longrightarrow>
              map_option count (map_of (nodes g') (node_id t1 l1)) = Some 2)
         \<and> (t1 = t2 \<longrightarrow> (node_id t1 l1 = node_id t2 l2 \<longleftrightarrow> l1 = l2))
         \<and> (CHR ''_'' \<notin> set t1 \<and> CHR ''_'' \<notin> set t2 \<longrightarrow>
              (node_id t1 l1 = node_id t2 l2 \<longleftrightarrow> t1 = t2 \<and> l1 = l2))
         \<and> (CHR ''_'' \<notin> set l1 \<and> CHR ''_'' \<notin> set l2 \<longrightarrow>
              (node_id t1 l1 = node_id t2 l2 \<longleftrightarrow> t1 = t2 \<and> l1 = l2))"
proof -
  let ?k1 = "node_id t1 l1" and ?k2 = "node_id t2 l2"
  let ?d1 = "\<lparr>node_text = t1, label = l1, confidence = get_confidence e1,
              sources = initial_sources doc1, count = 1\<rparr>"
  let ?g1 = "g\<lparr>nodes := nodes g @ [(?k1, ?d1)]\<rparr>"
  have s1: "add_entity g e1 doc1 = Inr ?g1"
    using assms(1,2,5) by (simp add: add_entity_def)
  have none: "map_of (nodes g) ?k1 = None" using assms(5) by (simp add: has_node_map_of)
  have m1: "map_of (nodes ?g1) ?k1 = Some ?d1"
    using none by (simp add: map_of_snoc del: map_of_append)
  have "\<exists>g'. add_entity ?g1 e2 doc2 = Inr g'
         \<and> map fst (nodes g') =
             map fst (nodes g) @ (if ?k1 = ?k2 then [?k1] else [?k1, ?k2])
         \<and> (?k1 = ?k2 \<longrightarrow> map_option count (map_of (nodes g') ?k1) = Some 2)"
  proof (cases "?k1 = ?k2")
    case True
    have "count ?d1 + 1 \<noteq> 0" by simp
    from add_entity_same_key[of e2 ?k1 ?g1 ?d1 doc2, OF _ m1 this] True assms(3,4)
    obtain g' d' where g': "add_entity ?g1 e2 doc2 = Inr g'" "map_of (nodes g') ?k1 = Some d'"
      "count d' = count ?d1 + 1"
      by (auto simp: entity_key_def)
    from add_entity_keys[OF g'(1)] True assms(3,4)
    have "map fst (nodes g') = map fst (nodes g) @ [?k1]"
      by (auto simp: entity_key_def has_node_def)
    with g' True show ?thesis by simp
  next
    case False
    have "\<not> has_node ?g1 ?k2" using False assms(6) by (auto simp: has_node_def)
    then show ?thesis using False assms(3,4) by (simp add: add_entity_def)
  qed
  then obtain g' where g': "add_entity ?g1 e2 doc2 = Inr g'"
      "map fst (nodes g') = map fst (nodes g) @ (if ?k1 = ?k2 then [?k1] else [?k1, ?k2])"
      "?k1 = ?k2 \<longrightarrow> map_option count (map_of (nodes g') ?k1) = Some 2"
    by blast
  have run: "add_entity_calls g [(e1, doc1), (e2, doc2)] = Inr g'"
    using s1 g'(1) by simp
  have a: "t1 = t2 \<longrightarrow> (?k1 = ?k2 \<longleftrightarrow> l1 = l2)"
    using node_id_same_text[of t1 l1 l2] by blast
  have b: "CHR ''_'' \<notin> set t1 \<and> CHR ''_'' \<notin> set t2 \<longrightarrow> (?k1 = ?k2 \<longleftrightarrow> t1 = t2 \<and> l1 = l2)"
    using node_id_inj_text[of t1 t2 l1 l2] by blast
  have c: "CHR ''_'' \<notin> set l1 \<and> CHR ''_'' \<notin> set l2 \<longrightarrow> (?k1 = ?k2 \<longleftrightarrow> t1 = t2 \<and> l1 = l2)"
    using node_id_inj_label[of l1 l2 t1 t2] by blast
  from run g'(2,3) a b c show ?thesis by blast
qed

theorem node_identity_is_joined_string_witness:
  "ent_text (example_entity ''Paris'' ''GPE'' 1) = Some ''Paris''
   \<and> ent_label (example_entity ''Paris'' ''GPE'' 1) = Some ''GPE''
   \<and> ent_text (example_entity ''Paris'' ''PERSON'' 1) = Some ''Paris''
   \<and> ent_label (example_entity ''Paris'' ''PERSON'' 1) = Some ''PERSON''
   \<and> (\<not> has_node empty_graph (node_id ''Paris'' ''GPE''))
   \<and> (\<not> has_node empty_graph (node_id ''Paris'' ''PERSON''))
   \<and> (\<exists>g'. add_entity_calls empty_graph
               [(example_entity ''Paris'' ''GPE'' 1, Some ''doc1''),
                (example_entity ''Paris'' ''PERSON'' 1, Some ''doc1'')] = Inr g'
          \<and> map fst (nodes g') = [''Paris_GPE'', ''Paris_PERSON''])"
proof -
  have h: "ent_text (example_entity ''Paris'' ''GPE'' 1) = Some ''Paris''"
    "ent_label (example_entity ''Paris'' ''GPE'' 1) = Some ''GPE''"
    "ent_text (example_entity ''Paris'' ''PERSON'' 1) = Some ''Paris''"
    "ent_label (example_entity ''Paris'' ''PERSON'' 1) = Some ''PERSON''"
    by (simp_all add: example_entity_def)
  have f: "\<not> has_node empty_graph (node_id ''Paris'' ''GPE'')"
    "\<not> has_node empty_graph (node_id ''Paris'' ''PERSON'')"
    by (simp_all add: has_node_def empty_graph_def)
  from node_identity_is_joined_string[OF h f, of "Some ''doc1''" "Some ''doc1''"]
  obtain g' where g': "add_entity_calls empty_graph
               [(example_entity ''Paris'' ''GPE'' 1, Some ''doc1''),
                (example_entity ''Paris'' ''PERSON'' 1, Some ''doc1'')] = Inr g'"
    "map fst (nodes g') =
       map fst (nodes empty_graph) @
         (if node_id ''Paris'' ''GPE'' = node_id ''Paris'' ''PERSON'' then [node_id ''Paris'' ''GPE'']
          else [node_id ''Paris'' ''GPE'', node_id ''Paris'' ''PERSON''])"
    by blast
  from g'(2) have "map fst (nodes g') = [''Paris_GPE'', ''Paris_PERSON'']"
    by (simp add: node_id_def empty_graph_def)
  with g'(1) have "\<exists>g'. add_entity_calls empty_graph
               [(example_entity ''Paris'' ''GPE'' 1, Some ''doc1''),
                (example_entity ''Paris'' ''PERSON'' 1, Some ''doc1'')] = Inr g'
          \<and> map fst (nodes g') = [''Paris_GPE'', ''Paris_PERSON'']"
    by (intro exI[of _ g'] conjI)
  with h f show ?thesis by (intro conjI)
qed

text \<open>Two entities whose pairs differ and whose joined strings coincide become one node.\<close>

theorem joined_key_collision:
  "(''a_b'', ''c'') \<noteq> (''a'', ''b_c'')
   \<and> add_entity_calls empty_graph
        [(example_entity ''a_b'' ''c'' 1, Some ''doc1''),
         (example_entity ''a'' ''b_c'' 1, Some ''doc1'')]
      = Inr \<lparr>nodes = [(''a_b_c'', \<lparr>node_text = ''a_b'', label = ''c'', confidence = 1,
                                    sources = [''doc1''], count = 2\<rparr>)],
             edges = []\<rparr>"
  by (simp add: add_entity_def example_entity_def empty_graph_def node_id_def has_node_def
      get_confidence_def Let_def bump_node_def average_node_def)

subsection \<open>Entities that lack a field or carry a confidence outside the unit interval\<close>

lemma add_entities_append:
  "add_entities cfg g (xs @ ys) doc =
     (case add_entities cfg g xs doc of Inl x \<Rightarrow> Inl x | Inr g1 \<Rightarrow> add_entities cfg g1 ys doc)"
  by (induction xs arbitrary: g) (auto split: sum.splits)

text \<open>
  C4 (as the code has it). \<^verbatim>\<open>add_entity\<close> validates nothing. An entity without a
  text or without a label raises \<^verbatim>\<open>KeyError\<close> and leaves the graph as it was; the
  ingestion does not catch the error, so it ends there: the entities before stay
  added, the rest of the document and the later documents are not processed. An
  entity below \<^verbatim>\<open>min_confidence\<close> is skipped without an error. A confidence is never
  checked against the unit interval: a new node stores whatever confidence passed the
  filter.
\<close>

theorem add_entity_validates_nothing:
  "(ent_text e = None \<longrightarrow> add_entity g e doc = Inl (KeyError ''text'', g))
   \<and> (ent_text e \<noteq> None \<and> ent_label e = None \<longrightarrow> add_entity g e doc = Inl (KeyError ''label'', g))
   \<and> (add_entities cfg g es1 doc = Inr g1 \<and> \<not> well_formed e
        \<and> get_confidence e \<ge> min_confidence cfg \<longrightarrow>
        add_entities cfg g (es1 @ e # es2) doc
            = Inl (KeyError (if ent_text e = None then ''text'' else ''label''), g1)
        \<and> process_file cfg g \<lparr>doc_entities = es1 @ e # es2, doc_id = doc\<rparr>
            = Inl (KeyError (if ent_text e = None then ''text'' else ''label''), g1)
        \<and> build_from_extractions cfg g (\<lparr>doc_entities = es1 @ e # es2, doc_id = doc\<rparr> # files)
            = Inl (KeyError (if ent_text e = None then ''text'' else ''label''), g1))
   \<and> (get_confidence e < min_confidence cfg \<longrightarrow>
        add_entities cfg g (e # es2) doc = add_entities cfg g es2 doc)
   \<and> (ent_text e = Some t \<and> ent_label e = Some l \<and> \<not> has_node g (node_id t l) \<longrightarrow>
        (\<exists>g'. add_entity g e doc = Inr g'
           \<and> map_option confidence (map_of (nodes g') (node_id t l)) = Some (get_confidence e)))"
proof -
  have a: "ent_text e = None \<longrightarrow> add_entity g e doc = Inl (KeyError ''text'', g)"
    by (simp add: add_entity_def)
  have b: "ent_text e \<noteq> None \<and> ent_label e = None \<longrightarrow> add_entity g e doc = Inl (KeyError ''label'', g)"
    by (auto simp: add_entity_def)
  have c: "add_entities cfg g (es1 @ e # es2) doc
            = Inl (KeyError (if ent_text e = None then ''text'' else ''label''), g1)
        \<and> process_file cfg g \<lparr>doc_entities = es1 @ e # es2, doc_id = doc\<rparr>
            = Inl (KeyError (if ent_text e = None then ''text'' else ''label''), g1)
        \<and> build_from_extractions cfg g (\<lparr>doc_entities = es1 @ e # es2, doc_id = doc\<rparr> # files)
            = Inl (KeyError (if ent_text e = None then ''text'' else ''label''), g1)"
    if h: "add_entities cfg g es1 doc = Inr g1" "\<not> well_formed e"
      "get_confidence e \<ge> min_confidence cfg"
  proof -
    let ?err = "KeyError (if ent_text e = None then ''text'' else ''label'')"
    have n: "add_entity g1 e doc = Inl (?err, g1)"
      using h(2) by (auto simp: well_formed_def add_entity_def)
    have 1: "add_entities cfg g (es1 @ e # es2) doc = Inl (?err, g1)"
      using h(1,3) n by (simp add: add_entities_append)
    then have 2: "process_file cfg g \<lparr>doc_entities = es1 @ e # es2, doc_id = doc\<rparr> = Inl (?err, g1)"
      by (simp add: process_file_def)
    then have "build_from_extractions cfg g (\<lparr>doc_entities = es1 @ e # es2, doc_id = doc\<rparr> # files)
               = Inl (?err, g1)"
      by (simp add: build_from_extractions_def)
    with 1 2 show ?thesis by (intro conjI)
  qed
  have d: "get_confidence e < min_confidence cfg \<longrightarrow>
        add_entities cfg g (e # es2) doc = add_entities cfg g es2 doc"
    by simp
  have f: "ent_text e = Some t \<and> ent_label e = Some l \<and> \<not> has_node g (node_id t l) \<longrightarrow>
        (\<exists>g'. add_entity g e doc = Inr g'
           \<and> map_option confidence (map_of (nodes g') (node_id t l)) = Some (get_confidence e))"
    by (auto simp: add_entity_def has_node_map_of map_of_snoc simp del: map_of_append)
  from a b c d f show ?thesis by blast
qed

theorem add_entity_validates_nothing_witness:
  "add_entities default_config empty_graph [example_entity ''Bob'' ''PERSON'' 1] (Some ''doc1'')
     = Inr bob_graph
   \<and> (\<not> well_formed unlabelled_entity)
   \<and> get_confidence unlabelled_entity \<ge> min_confidence default_config
   \<and> build_from_extractions default_config empty_graph
        [\<lparr>doc_entities = [example_entity ''Bob'' ''PERSON'' 1, unlabelled_entity,
                          example_entity ''Eve'' ''PERSON'' 1],
          doc_id = Some ''doc1''\<rparr>]
     = Inl (KeyError ''label'', bob_graph)
   \<and> (\<exists>g'. add_entity empty_graph (example_entity ''Eve'' ''PERSON'' (3 / 2)) (Some ''doc1'') = Inr g'
         \<and> map_option confidence (map_of (nodes g') ''Eve_PERSON'') = Some (3 / 2))"
proof -
  have 1: "add_entities default_config empty_graph [example_entity ''Bob'' ''PERSON'' 1] (Some ''doc1'')
     = Inr bob_graph"
    by (simp add: add_entity_def example_entity_def empty_graph_def bob_graph_def node_id_def
        has_node_def get_confidence_def default_config_def)
  have 2: "\<not> well_formed unlabelled_entity"
    by (simp add: well_formed_def unlabelled_entity_def)
  have 3: "get_confidence unlabelled_entity \<ge> min_confidence default_config"
    by (simp add: get_confidence_def unlabelled_entity_def default_config_def)
  from add_entity_validates_nothing[of unlabelled_entity empty_graph "Some ''doc1''" default_config
      "[example_entity ''Bob'' ''PERSON'' 1]" bob_graph "[example_entity ''Eve'' ''PERSON'' 1]" "[]"
      "''Ada''" "''PERSON''"] 1 2 3
  have 4: "build_from_extractions default_config empty_graph
        [\<lparr>doc_entities = [example_entity ''Bob'' ''PERSON'' 1, unlabelled_entity,
                          example_entity ''Eve'' ''PERSON'' 1],
          doc_id = Some ''doc1''\<rparr>]
     = Inl (KeyError ''label'', bob_graph)"
    by (simp add: unlabelled_entity_def)
  have hyp: "ent_text (example_entity ''Eve'' ''PERSON'' (3 / 2)) = Some ''Eve''
      \<and> ent_label (example_entity ''Eve'' ''PERSON'' (3 / 2)) = Some ''PERSON''
      \<and> \<not> has_node empty_graph (node_id ''Eve'' ''PERSON'')"
    by (simp add: example_entity_def has_node_def empty_graph_def)
  from add_entity_validates_nothing[of "example_entity ''Eve'' ''PERSON'' (3 / 2)" empty_graph
      "Some ''doc1''" default_config "[]" empty_graph "[]" "[]" "''Eve''" "''PERSON''"] hyp
  obtain g' where g':
    "add_entity empty_graph (example_entity ''Eve'' ''PERSON'' (3 / 2)) (Some ''doc1'') = Inr g'"
    "map_option confidence (map_of (nodes g') (node_id ''Eve'' ''PERSON''))
       = Some (get_confidence (example_entity ''Eve'' ''PERSON'' (3 / 2)))"
    by blast
  from g'(2) have "map_option confidence (map_of (nodes g') ''Eve_PERSON'') = Some (3 / 2)"
    by (simp add: node_id_def get_confidence_def example_entity_def)
  with g'(1)
  have 5: "\<exists>g'. add_entity empty_graph (example_entity ''Eve'' ''PERSON'' (3 / 2)) (Some ''doc1'') = Inr g'
         \<and> map_option confidence (map_of (nodes g') ''Eve_PERSON'') = Some (3 / 2)"
    by (intro exI[of _ g'] conjI)
  from 1 2 3 4 5 show ?thesis by (intro conjI)
qed

text \<open>A confidence of 1.5 is stored, and an entity without a label ends the build
  with the entities after it unprocessed.\<close>

theorem validation_counterexample:
  "add_entity empty_graph (example_entity ''Eve'' ''PERSON'' (3 / 2)) (Some ''doc1'')
     = Inr \<lparr>nodes = [(''Eve_PERSON'', \<lparr>node_text = ''Eve'', label = ''PERSON'', confidence = 3 / 2,
                                       sources = [''doc1''], count = 1\<rparr>)],
            edges = []\<rparr>
   \<and> build_from_extractions default_config empty_graph
        [\<lparr>doc_entities = [unlabelled_entity, example_entity ''Bob'' ''PERSON'' 1],
          doc_id = Some ''doc1''\<rparr>]
     = Inl (KeyError ''label'', empty_graph)"
  by (simp add: add_entity_def example_entity_def empty_graph_def node_id_def has_node_def
      get_confidence_def default_config_def unlabelled_entity_def build_from_extractions_def
      process_file_def)

subsection \<open>No self-loops\<close>

lemma nodes_with_text_mem:
  assumes "k \<in> set (nodes_with_text g s)"
  shows "\<exists>d. (k, d) \<in> set (nodes g) \<and> node_text d = s"
  using assms by (auto simp: nodes_with_text_def)

lemma resolved_nodes_differ:
  assumes "distinct_nodes g" and "nodes_with_text g s = sid # ss"
    and "nodes_with_text g t = tid # ts" and "s \<noteq> t"
  shows "sid \<noteq> tid"
proof
  assume eq: "sid = tid"
  from assms(2) have "sid \<in> set (nodes_with_text g s)" by simp
  then obtain d where d: "(sid, d) \<in> set (nodes g)" "node_text d = s"
    using nodes_with_text_mem by blast
  from assms(3) have "tid \<in> set (nodes_with_text g t)" by simp
  then obtain d' where d': "(tid, d') \<in> set (nodes g)" "node_text d' = t"
    using nodes_with_text_mem by blast
  from assms(1) d(1) d'(1) eq have "d = d'"
    by (auto simp: distinct_nodes_def dest: eq_key_imp_eq_value)
  with d(2) d'(2) assms(4) show False by simp
qed

lemma add_relationship_loop_free:
  assumes "loop_free g" and "s \<noteq> t"
  shows "loop_free (add_relationship g s t r w)"
proof (cases "nodes_with_text g s")
  case Nil
  with assms(1) show ?thesis by (simp add: add_relationship_def)
next
  case (Cons sid ss)
  note s = this
  show ?thesis
  proof (cases "nodes_with_text g t")
    case Nil
    with assms(1) s show ?thesis by (simp add: add_relationship_def)
  next
    case (Cons tid ts)
    from assms(1) have dn: "distinct_nodes g" and nl: "no_self_loops g"
      by (simp_all add: loop_free_def)
    have ne: "sid \<noteq> tid" by (rule resolved_nodes_differ[OF dn s Cons assms(2)])
    have dn': "distinct_nodes (add_relationship g s t r w)"
      using dn by (simp add: distinct_nodes_def)
    have "list_all (\<lambda>p. fst (fst p) \<noteq> snd (fst p))
            (update_key (sid, tid) (bump_edge w) (edges g))"
      using nl by (auto simp: no_self_loops_def intro: list_all_update_key)
    then have "no_self_loops (add_relationship g s t r w)"
      using nl ne s Cons by (simp add: add_relationship_def no_self_loops_def)
    with dn' show ?thesis by (simp add: loop_free_def)
  qed
qed

lemma fold_preserves:
  assumes "\<And>x s. P s \<Longrightarrow> P (f x s)" and "P s"
  shows "P (fold f xs s)"
  using assms(2) by (induction xs arbitrary: s) (simp_all add: assms(1))

lemma link_targets_loop_free: "loop_free g \<Longrightarrow> loop_free (link_targets s ts g)"
  unfolding link_targets_def
  by (rule fold_preserves) (simp_all add: add_relationship_loop_free)

lemma link_texts_loop_free: "loop_free g \<Longrightarrow> loop_free (link_texts ts g)"
  unfolding link_texts_def
  by (rule fold_preserves) (simp_all add: link_targets_loop_free)

lemma add_cooccurrence_edges_loop_free:
  "loop_free g \<Longrightarrow> loop_free (final_graph (add_cooccurrence_edges cfg g es doc))"
  by (simp add: add_cooccurrence_edges_def link_texts_loop_free split: sum.splits)

lemma add_entity_edges: "edges (final_graph (add_entity g e doc)) = edges g"
proof (cases "add_entity g e doc")
  case (Inl x)
  then obtain err g1 where "add_entity g e doc = Inl (err, g1)" by (cases x) auto
  with add_entity_raise[OF this] show ?thesis by simp
next
  case (Inr g')
  with add_entity_keys[OF Inr] show ?thesis by auto
qed

lemma add_entity_loop_free: "loop_free g \<Longrightarrow> loop_free (final_graph (add_entity g e doc))"
  by (simp add: loop_free_def add_entity_distinct no_self_loops_def add_entity_edges)

lemma add_entities_loop_free:
  "loop_free g \<Longrightarrow> loop_free (final_graph (add_entities cfg g es doc))"
proof (induction es arbitrary: g)
  case Nil
  then show ?case by simp
next
  case (Cons e es)
  from add_entity_loop_free[OF Cons.prems, of e doc] Cons.IH Cons.prems
  show ?case by (auto split: sum.splits)
qed

lemma process_file_loop_free:
  "loop_free g \<Longrightarrow> loop_free (final_graph (process_file cfg g d))"
  using add_entities_loop_free[of g cfg "doc_entities d" "doc_id d"]
  by (auto simp: process_file_def add_cooccurrence_edges_loop_free split: sum.splits)

lemma process_files_loop_free:
  "loop_free g \<Longrightarrow> loop_free (final_graph (process_files cfg g ds))"
proof (induction ds arbitrary: g)
  case Nil
  then show ?case by simp
next
  case (Cons d ds)
  from process_file_loop_free[OF Cons.prems, of cfg d] Cons.IH
  show ?case by (auto split: sum.splits)
qed

lemma subgraph_copy_loop_free: "loop_free g \<Longrightarrow> loop_free (subgraph_copy g keep)"
  by (auto simp: loop_free_def distinct_nodes_def no_self_loops_def subgraph_copy_def
        distinct_map_filter list_all_iff)

lemma build_loop_free:
  "loop_free g \<Longrightarrow> loop_free (final_graph (build_from_extractions cfg g files))"
  using process_files_loop_free[of g cfg files]
  by (auto simp: build_from_extractions_def prune_graph_def subgraph_copy_loop_free
        split: sum.splits)

lemma apply_operation_loop_free:
  "loop_free g \<Longrightarrow> texts_differ op \<Longrightarrow> loop_free (final_graph (apply_operation cfg g op))"
  by (cases op)
     (simp_all add: add_entity_loop_free add_relationship_loop_free add_cooccurrence_edges_loop_free)

lemma apply_operations_loop_free:
  "loop_free g \<Longrightarrow> list_all texts_differ ops \<Longrightarrow>
     loop_free (final_graph (apply_operations cfg g ops))"
proof (induction ops arbitrary: g)
  case Nil
  then show ?case by simp
next
  case (Cons op ops)
  from apply_operation_loop_free[OF Cons.prems(1), of op cfg] Cons.prems(2) Cons.IH
  show ?case by (auto split: sum.splits)
qed

text \<open>
  C7 (as the code has it). The guard against loops is the comparison of the two texts
  in the co-occurrence linking; \<^verbatim>\<open>add_relationship\<close> itself compares nothing. A graph
  with unique identifiers and without loops stays so under every sequence of
  \<^verbatim>\<open>add_entity\<close> calls, co-occurrence linkings and \<^verbatim>\<open>add_relationship\<close> calls whose two
  texts differ, whether the sequence returns or raises, and under a whole build:
  different texts resolve to different nodes, and the linking skips equal texts.
\<close>

theorem no_self_loops_from_builder:
  assumes "distinct_nodes g" and "no_self_loops g" and "list_all texts_differ ops"
  shows "no_self_loops (final_graph (apply_operations cfg g ops))
       \<and> distinct_nodes (final_graph (apply_operations cfg g ops))
       \<and> no_self_loops (final_graph (build_from_extractions cfg g files))
       \<and> distinct_nodes (final_graph (build_from_extractions cfg g files))"
proof -
  from assms(1,2) have lf: "loop_free g" by (simp add: loop_free_def)
  from apply_operations_loop_free[OF lf assms(3), of cfg] build_loop_free[OF lf, of cfg files]
  show ?thesis by (simp add: loop_free_def)
qed

text \<open>A direct call with the same text on both sides makes a loop.\<close>

theorem self_loop_counterexample:
  "apply_operations default_config empty_graph
     [AddEntity (example_entity ''Ada'' ''PERSON'' 1) (Some ''doc1''),
      AddRelationship ''Ada'' ''Ada'' ''RELATED_TO'' 1]
   = Inr \<lparr>nodes = [(''Ada_PERSON'', \<lparr>node_text = ''Ada'', label = ''PERSON'', confidence = 1,
                                     sources = [''doc1''], count = 1\<rparr>)],
          edges = [((''Ada_PERSON'', ''Ada_PERSON''),
                    \<lparr>rel_type = ''RELATED_TO'', weight = 1, edge_count = 1\<rparr>)]\<rparr>"
  by (simp add: add_entity_def example_entity_def empty_graph_def node_id_def has_node_def
      get_confidence_def add_relationship_def nodes_with_text_def has_edge_def)

subsection \<open>Co-occurrence linking, position by position\<close>

lemma link_texts_Nil [simp]: "link_texts [] g = g"
  by (simp add: link_texts_def)

lemma link_texts_Cons:
  "link_texts (t # ts) g = link_texts ts (link_targets t (take 4 ts) g)"
proof -
  have "[0..<length (t # ts)] = 0 # map Suc [0..<length ts]"
    by (simp add: upt_conv_Cons map_Suc_upt del: upt_Suc)
  then show ?thesis
    by (simp add: link_texts_def fold_map comp_def del: upt_Suc)
qed

lemma link_targets_Nil [simp]: "link_targets s [] g = g"
  by (simp add: link_targets_def)

lemma link_targets_Cons:
  "link_targets s (t # ts) g =
     link_targets s ts (if s \<noteq> t then add_relationship g s t ''CO_OCCURS'' (1 / 2) else g)"
  by (simp add: link_targets_def)

lemma link_targets_nodes [simp]: "nodes (link_targets s ts g) = nodes g"
  by (induction ts arbitrary: g) (simp_all add: link_targets_Cons)

lemma link_texts_nodes [simp]: "nodes (link_texts ts g) = nodes g"
  by (induction ts arbitrary: g) (simp_all add: link_texts_Cons)

lemma build_ada_ada_bob:
  "build_from_extractions default_config empty_graph [ada_ada_bob]
     = Inr \<lparr>nodes = [(''Ada_PERSON'', \<lparr>node_text = ''Ada'', label = ''PERSON'', confidence = 1,
                                       sources = [''doc1''], count = 2\<rparr>),
                     (''Bob_PERSON'', \<lparr>node_text = ''Bob'', label = ''PERSON'', confidence = 1,
                                       sources = [''doc1''], count = 1\<rparr>)],
            edges = [((''Ada_PERSON'', ''Bob_PERSON''),
                      \<lparr>rel_type = ''CO_OCCURS'', weight = 1, edge_count = 2\<rparr>)]\<rparr>"
  by (simp add: build_from_extractions_def process_file_def ada_ada_bob_def add_entity_def
      example_entity_def empty_graph_def node_id_def has_node_def get_confidence_def
      default_config_def Let_def bump_node_def average_node_def add_cooccurrence_edges_def
      link_texts_Cons link_targets_Cons add_relationship_def nodes_with_text_def has_edge_def
      bump_edge_def)

theorem no_self_loops_from_builder_witness:
  "distinct_nodes empty_graph \<and> no_self_loops empty_graph
   \<and> list_all texts_differ
        [AddEntity (example_entity ''Ada'' ''PERSON'' 1) (Some ''doc1''),
         AddEntity (example_entity ''Bob'' ''PERSON'' 1) (Some ''doc1''),
         AddRelationship ''Ada'' ''Bob'' ''RELATED_TO'' 1]
   \<and> no_self_loops (final_graph (apply_operations default_config empty_graph
        [AddEntity (example_entity ''Ada'' ''PERSON'' 1) (Some ''doc1''),
         AddEntity (example_entity ''Bob'' ''PERSON'' 1) (Some ''doc1''),
         AddRelationship ''Ada'' ''Bob'' ''RELATED_TO'' 1]))
   \<and> no_self_loops (final_graph (build_from_extractions default_config empty_graph [ada_ada_bob]))
   \<and> map fst (edges (final_graph (build_from_extractions default_config empty_graph [ada_ada_bob])))
       = [(''Ada_PERSON'', ''Bob_PERSON'')]"
proof -
  let ?ops = "[AddEntity (example_entity ''Ada'' ''PERSON'' 1) (Some ''doc1''),
         AddEntity (example_entity ''Bob'' ''PERSON'' 1) (Some ''doc1''),
         AddRelationship ''Ada'' ''Bob'' ''RELATED_TO'' 1]"
  have d: "distinct_nodes empty_graph" by (simp add: distinct_nodes_def empty_graph_def)
  have n: "no_self_loops empty_graph" by (simp add: no_self_loops_def empty_graph_def)
  have t: "list_all texts_differ ?ops" by simp
  from no_self_loops_from_builder[OF d n t, of default_config "[ada_ada_bob]"]
  have r: "no_self_loops (final_graph (apply_operations default_config empty_graph ?ops))"
    "no_self_loops (final_graph (build_from_extractions default_config empty_graph [ada_ada_bob]))"
    by blast+
  have e: "map fst (edges (final_graph (build_from_extractions default_config empty_graph [ada_ada_bob])))
       = [(''Ada_PERSON'', ''Bob_PERSON'')]"
    by (simp add: build_ada_ada_bob)
  from d n t r e show ?thesis by (intro conjI)
qed

subsection \<open>The window of four\<close>

lemma first_node_text:
  assumes "distinct_nodes g" and "nodes_with_text g s = k # r"
  shows "map_option node_text (map_of (nodes g) k) = Some s"
proof -
  from assms(2) have "k \<in> set (nodes_with_text g s)" by simp
  then obtain d where d: "(k, d) \<in> set (nodes g)" "node_text d = s"
    using nodes_with_text_mem by blast
  from assms(1) d(1) have "map_of (nodes g) k = Some d"
    by (simp add: distinct_nodes_def)
  with d(2) show ?thesis by simp
qed

lemma nodes_with_text_edges [simp]:
  "nodes_with_text (g\<lparr>edges := es\<rparr>) s = nodes_with_text g s"
  by (simp add: nodes_with_text_def)

text \<open>
  C3. Six distinct texts \<open>a ... f\<close>, in this order the texts of the document's
  entities at or above the threshold, each the text of some node (\<open>ka ... kf\<close> being
  the first node with the text), linked into a graph without edges: the edges
  afterwards are exactly the fourteen pairs of a position with the next four, each of
  type \<^verbatim>\<open>CO_OCCURS\<close>, weight 0.5 and count 1; none is a loop, none spans five
  positions, and the nodes are as before.
\<close>

theorem window_linking:
  assumes "entity_texts cfg es = Inr [a, b, c, d, e, f]"
    and "distinct [a, b, c, d, e, f]"
    and "distinct_nodes g" and "edges g = []"
    and "nodes_with_text g a = ka # ra" and "nodes_with_text g b = kb # rb"
    and "nodes_with_text g c = kc # rc" and "nodes_with_text g d = kd # rd"
    and "nodes_with_text g e = ke # re" and "nodes_with_text g f = kf # rf"
  shows "\<exists>g'. add_cooccurrence_edges cfg g es doc = Inr g'
       \<and> edges g' = map (\<lambda>k. (k, co_occurs))
           [(ka, kb), (ka, kc), (ka, kd), (ka, ke),
            (kb, kc), (kb, kd), (kb, ke), (kb, kf),
            (kc, kd), (kc, ke), (kc, kf),
            (kd, ke), (kd, kf),
            (ke, kf)]
       \<and> distinct [ka, kb, kc, kd, ke, kf]
       \<and> no_self_loops g' \<and> \<not> has_edge g' ka kf
       \<and> nodes g' = nodes g"
proof -
  let ?tx = "\<lambda>k. map_option node_text (map_of (nodes g) k)"
  have eqs: "?tx ka = Some a" "?tx kb = Some b" "?tx kc = Some c"
    "?tx kd = Some d" "?tx ke = Some e" "?tx kf = Some f"
    by (rule first_node_text[OF assms(3)], fact)+
  have m: "map ?tx [ka, kb, kc, kd, ke, kf] = map Some [a, b, c, d, e, f]"
    by (simp only: list.map eqs)
  have "distinct (map Some [a, b, c, d, e, f])"
    using assms(2) by (simp only: distinct_map) simp
  then have "distinct (map ?tx [ka, kb, kc, kd, ke, kf])" by (simp only: m)
  then have dk: "distinct [ka, kb, kc, kd, ke, kf]" by (simp only: distinct_map)
  from assms(2) have te: "a \<noteq> b" "a \<noteq> c" "a \<noteq> d" "a \<noteq> e" "a \<noteq> f" "b \<noteq> c" "b \<noteq> d"
    "b \<noteq> e" "b \<noteq> f" "c \<noteq> d" "c \<noteq> e" "c \<noteq> f" "d \<noteq> e" "d \<noteq> f" "e \<noteq> f"
    by simp_all
  from dk have ke: "ka \<noteq> kb" "ka \<noteq> kc" "ka \<noteq> kd" "ka \<noteq> ke" "ka \<noteq> kf" "kb \<noteq> kc"
    "kb \<noteq> kd" "kb \<noteq> ke" "kb \<noteq> kf" "kc \<noteq> kd" "kc \<noteq> ke" "kc \<noteq> kf" "kd \<noteq> ke" "kd \<noteq> kf"
    "ke \<noteq> kf"
    by simp_all
  note neq = te te[symmetric] ke ke[symmetric]
  define g' where "g' = link_texts [a, b, c, d, e, f] g"
  have ed: "edges g' = map (\<lambda>k. (k, co_occurs))
           [(ka, kb), (ka, kc), (ka, kd), (ka, ke),
            (kb, kc), (kb, kd), (kb, ke), (kb, kf),
            (kc, kd), (kc, ke), (kc, kf),
            (kd, ke), (kd, kf),
            (ke, kf)]"
    unfolding g'_def
    by (simp add: link_texts_Cons link_targets_Cons add_relationship_def has_edge_def
        co_occurs_def neq assms(4-10))
  have nd: "nodes g' = nodes g" by (simp add: g'_def)
  have r: "add_cooccurrence_edges cfg g es doc = Inr g'"
    by (simp add: add_cooccurrence_edges_def assms(1) g'_def)
  have nl: "no_self_loops g'" unfolding no_self_loops_def ed by (simp add: neq)
  have nh: "\<not> has_edge g' ka kf" unfolding has_edge_def ed by (simp add: neq)
  from r ed dk nl nh nd show ?thesis by (intro exI[of _ g'] conjI)
qed

theorem window_linking_witness:
  "add_entities default_config empty_graph six_entities (Some ''doc1'') = Inr six_nodes
   \<and> entity_texts default_config six_entities = Inr [''A'', ''B'', ''C'', ''D'', ''E'', ''F'']
   \<and> distinct [''A'', ''B'', ''C'', ''D'', ''E'', ''F'']
   \<and> distinct_nodes six_nodes \<and> edges six_nodes = []
   \<and> nodes_with_text six_nodes ''A'' = [''A_X''] \<and> nodes_with_text six_nodes ''F'' = [''F_X'']
   \<and> (\<exists>g'. add_cooccurrence_edges default_config six_nodes six_entities (Some ''doc1'') = Inr g'
         \<and> edges g' = map (\<lambda>k. (k, co_occurs))
             [(''A_X'', ''B_X''), (''A_X'', ''C_X''), (''A_X'', ''D_X''), (''A_X'', ''E_X''),
              (''B_X'', ''C_X''), (''B_X'', ''D_X''), (''B_X'', ''E_X''), (''B_X'', ''F_X''),
              (''C_X'', ''D_X''), (''C_X'', ''E_X''), (''C_X'', ''F_X''),
              (''D_X'', ''E_X''), (''D_X'', ''F_X''),
              (''E_X'', ''F_X'')]
         \<and> nodes g' = nodes six_nodes)"
proof -
  have b: "add_entities default_config empty_graph six_entities (Some ''doc1'') = Inr six_nodes"
    by (simp add: six_entities_def six_nodes_def add_entity_def empty_graph_def node_id_def
        has_node_def get_confidence_def default_config_def)
  have t: "entity_texts default_config six_entities = Inr [''A'', ''B'', ''C'', ''D'', ''E'', ''F'']"
    by (simp add: six_entities_def get_confidence_def default_config_def)
  have d: "distinct [''A'', ''B'', ''C'', ''D'', ''E'', ''F'']" by simp
  have dn: "distinct_nodes six_nodes" by (simp add: distinct_nodes_def six_nodes_def)
  have e: "edges six_nodes = []" by (simp add: six_nodes_def)
  have n: "nodes_with_text six_nodes ''A'' = [''A_X'']" "nodes_with_text six_nodes ''B'' = [''B_X'']"
    "nodes_with_text six_nodes ''C'' = [''C_X'']" "nodes_with_text six_nodes ''D'' = [''D_X'']"
    "nodes_with_text six_nodes ''E'' = [''E_X'']" "nodes_with_text six_nodes ''F'' = [''F_X'']"
    by (simp_all add: nodes_with_text_def six_nodes_def)
  from window_linking[OF t d dn e n, of "Some ''doc1''"]
  obtain g' where g': "add_cooccurrence_edges default_config six_nodes six_entities (Some ''doc1'') = Inr g'"
    "edges g' = map (\<lambda>k. (k, co_occurs))
             [(''A_X'', ''B_X''), (''A_X'', ''C_X''), (''A_X'', ''D_X''), (''A_X'', ''E_X''),
              (''B_X'', ''C_X''), (''B_X'', ''D_X''), (''B_X'', ''E_X''), (''B_X'', ''F_X''),
              (''C_X'', ''D_X''), (''C_X'', ''E_X''), (''C_X'', ''F_X''),
              (''D_X'', ''E_X''), (''D_X'', ''F_X''),
              (''E_X'', ''F_X'')]"
    "nodes g' = nodes six_nodes"
    by blast
  then have "\<exists>g'. add_cooccurrence_edges default_config six_nodes six_entities (Some ''doc1'') = Inr g'
         \<and> edges g' = map (\<lambda>k. (k, co_occurs))
             [(''A_X'', ''B_X''), (''A_X'', ''C_X''), (''A_X'', ''D_X''), (''A_X'', ''E_X''),
              (''B_X'', ''C_X''), (''B_X'', ''D_X''), (''B_X'', ''E_X''), (''B_X'', ''F_X''),
              (''C_X'', ''D_X''), (''C_X'', ''E_X''), (''C_X'', ''F_X''),
              (''D_X'', ''E_X''), (''D_X'', ''F_X''),
              (''E_X'', ''F_X'')]
         \<and> nodes g' = nodes six_nodes"
    by (intro exI[of _ g'] conjI)
  with b t d dn e n(1) n(6) show ?thesis by (intro conjI)
qed

subsection \<open>Unique identifiers through the ingestion\<close>

lemma add_entities_distinct:
  "distinct_nodes g \<Longrightarrow> add_entities cfg g es doc = Inr g' \<Longrightarrow> distinct_nodes g'"
proof (induction es arbitrary: g)
  case Nil
  then show ?case by simp
next
  case (Cons e es)
  show ?case
  proof (cases "get_confidence e \<ge> min_confidence cfg")
    case True
    with Cons.prems(2) obtain g1 where g1: "add_entity g e doc = Inr g1"
      "add_entities cfg g1 es doc = Inr g'"
      by (auto split: sum.splits)
    from add_entity_distinct[OF Cons.prems(1), of e doc] g1(1) have "distinct_nodes g1" by simp
    from Cons.IH[OF this g1(2)] show ?thesis .
  next
    case False
    with Cons.prems(2) have "add_entities cfg g es doc = Inr g'" by simp
    from Cons.IH[OF Cons.prems(1) this] show ?thesis .
  qed
qed

lemma process_file_distinct:
  assumes "distinct_nodes g" and "process_file cfg g d = Inr g'"
  shows "distinct_nodes g'"
proof -
  from assms(2) obtain g1 where g1: "add_entities cfg g (doc_entities d) (doc_id d) = Inr g1"
    "add_cooccurrence_edges cfg g1 (doc_entities d) (doc_id d) = Inr g'"
    by (auto simp: process_file_def split: sum.splits)
  from add_entities_distinct[OF assms(1) g1(1)] have "distinct_nodes g1" .
  moreover from g1(2) have "nodes g' = nodes g1"
    by (auto simp: add_cooccurrence_edges_def split: sum.splits)
  ultimately show ?thesis by (simp add: distinct_nodes_def)
qed

lemma process_files_distinct:
  "distinct_nodes g \<Longrightarrow> process_files cfg g ds = Inr g' \<Longrightarrow> distinct_nodes g'"
proof (induction ds arbitrary: g)
  case Nil
  then show ?case by simp
next
  case (Cons d ds)
  from Cons.prems(2) obtain g1 where g1: "process_file cfg g d = Inr g1"
    "process_files cfg g1 ds = Inr g'"
    by (auto split: sum.splits)
  from Cons.IH[OF process_file_distinct[OF Cons.prems(1) g1(1)] g1(2)] show ?case .
qed

subsection \<open>Ranking and pruning\<close>

lemma degree_centrality_keys: "map fst (degree_centrality g) = map fst (nodes g)"
  by (simp add: degree_centrality_def comp_def)

lemma sorted_nodes_keys: "mset (map fst (sorted_nodes g)) = mset (map fst (nodes g))"
  by (simp add: sorted_nodes_def flip: degree_centrality_keys)

lemma sorted_nodes_distinct:
  assumes "distinct_nodes g"
  shows "distinct (map fst (sorted_nodes g))"
proof -
  have "distinct (map fst (nodes g))" using assms by (simp add: distinct_nodes_def)
  then show ?thesis using sorted_nodes_keys[of g] by (metis mset_eq_imp_distinct_iff)
qed

lemma slice_to_take: "0 \<le> k \<Longrightarrow> slice_to k xs = take (nat k) xs"
  by (simp add: slice_to_def)

lemma nodes_to_keep_props:
  assumes "distinct_nodes g" and "0 \<le> max_nodes cfg" and "int (length (nodes g)) > max_nodes cfg"
  shows "distinct (nodes_to_keep cfg g)"
    and "set (nodes_to_keep cfg g) \<subseteq> set (map fst (nodes g))"
    and "int (length (nodes_to_keep cfg g)) = max_nodes cfg"
proof -
  have k: "nodes_to_keep cfg g = take (nat (max_nodes cfg)) (map fst (sorted_nodes g))"
    using assms(2) by (simp add: nodes_to_keep_def slice_to_take take_map)
  show "distinct (nodes_to_keep cfg g)"
    unfolding k using sorted_nodes_distinct[OF assms(1)] by (rule distinct_take)
  have "set (map fst (sorted_nodes g)) = set (map fst (nodes g))"
    using sorted_nodes_keys[of g] by (rule mset_eq_setD)
  then show "set (nodes_to_keep cfg g) \<subseteq> set (map fst (nodes g))"
    unfolding k using set_take_subset by fastforce
  have "length (sorted_nodes g) = length (nodes g)"
    by (simp add: sorted_nodes_def degree_centrality_def)
  then show "int (length (nodes_to_keep cfg g)) = max_nodes cfg"
    unfolding k using assms(2,3) by simp
qed

lemma subgraph_copy_length:
  assumes "distinct_nodes g" and "distinct keep" and "set keep \<subseteq> set (map fst (nodes g))"
  shows "length (nodes (subgraph_copy g keep)) = length keep"
proof -
  have "length (nodes (subgraph_copy g keep))
          = length (filter (\<lambda>k. k \<in> set keep) (map fst (nodes g)))"
    by (simp add: subgraph_copy_def filter_map comp_def)
  also have "\<dots> = card ({k. k \<in> set keep} \<inter> set (map fst (nodes g)))"
    using assms(1) unfolding distinct_nodes_def by (rule distinct_length_filter)
  also have "{k. k \<in> set keep} \<inter> set (map fst (nodes g)) = set keep"
    using assms(3) by auto
  also have "card (set keep) = length keep"
    using assms(2) by (rule distinct_card)
  finally show ?thesis .
qed

lemma subgraph_copy_closed:
  assumes "set keep \<subseteq> set (map fst (nodes g))"
  shows "edges_closed (subgraph_copy g keep)"
proof -
  have "has_node (subgraph_copy g keep) k" if "k \<in> set keep" for k
  proof -
    from that assms obtain p where "p \<in> set (nodes g)" "fst p = k" by auto
    with that show ?thesis by (force simp: has_node_def subgraph_copy_def)
  qed
  then show ?thesis
    by (auto simp: edges_closed_def list_all_iff subgraph_copy_def)
qed

lemma subgraph_copy_subset:
  "set (nodes (subgraph_copy g keep)) \<subseteq> set (nodes g)
   \<and> set (edges (subgraph_copy g keep)) \<subseteq> set (edges g)"
  by (auto simp: subgraph_copy_def)

text \<open>
  C1. With a budget \<open>m \<ge> 0\<close> and unique identifiers at the start, a build whose
  ingestion returns a graph of \<open>N\<close> nodes returns that graph unchanged when \<open>N \<le> m\<close>;
  when \<open>N > m\<close> it returns the pruned graph, which has at most \<open>m\<close> nodes (exactly
  \<open>m\<close>), whose nodes and edges are nodes and edges of the ingested graph, and in which
  both endpoints of every edge are nodes.
\<close>

theorem build_respects_budget:
  assumes "0 \<le> max_nodes cfg" and "distinct_nodes g" and "process_files cfg g files = Inr g1"
  shows "\<exists>g'. build_from_extractions cfg g files = Inr g'
       \<and> (int (length (nodes g1)) \<le> max_nodes cfg \<longrightarrow> g' = g1)
       \<and> (int (length (nodes g1)) > max_nodes cfg \<longrightarrow>
            g' = prune_graph cfg g1
          \<and> int (length (nodes g')) \<le> max_nodes cfg
          \<and> int (length (nodes g')) = max_nodes cfg
          \<and> edges_closed g'
          \<and> set (nodes g') \<subseteq> set (nodes g1) \<and> set (edges g') \<subseteq> set (edges g1))"
proof (cases "int (length (nodes g1)) > max_nodes cfg")
  case False
  with assms(3) show ?thesis by (simp add: build_from_extractions_def)
next
  case True
  have d1: "distinct_nodes g1" by (rule process_files_distinct[OF assms(2,3)])
  note keep = nodes_to_keep_props[OF d1 assms(1) True]
  have len: "length (nodes (prune_graph cfg g1)) = length (nodes_to_keep cfg g1)"
    unfolding prune_graph_def by (rule subgraph_copy_length[OF d1 keep(1,2)])
  have closed: "edges_closed (prune_graph cfg g1)"
    unfolding prune_graph_def by (rule subgraph_copy_closed[OF keep(2)])
  have sub: "set (nodes (prune_graph cfg g1)) \<subseteq> set (nodes g1)
      \<and> set (edges (prune_graph cfg g1)) \<subseteq> set (edges g1)"
    unfolding prune_graph_def by (rule subgraph_copy_subset)
  have b: "build_from_extractions cfg g files = Inr (prune_graph cfg g1)"
    using assms(3) True by (simp add: build_from_extractions_def)
  show ?thesis using b True len keep(3) closed sub by simp
qed

lemma process_ada_ada_bob:
  "process_files (default_config\<lparr>max_nodes := 1\<rparr>) empty_graph [ada_ada_bob] = Inr ada_bob_graph"
  by (simp add: process_file_def ada_ada_bob_def ada_bob_graph_def add_entity_def
      example_entity_def empty_graph_def node_id_def has_node_def get_confidence_def
      default_config_def Let_def bump_node_def average_node_def add_cooccurrence_edges_def
      link_texts_Cons link_targets_Cons add_relationship_def nodes_with_text_def has_edge_def
      bump_edge_def)

lemma sorted_nodes_ada_bob:
  "sorted_nodes ada_bob_graph = [(''Ada_PERSON'', 1), (''Bob_PERSON'', 1)]"
  by (simp add: sorted_nodes_def degree_centrality_def degree_def ada_bob_graph_def)

lemma prune_ada_bob:
  "prune_graph (default_config\<lparr>max_nodes := 1\<rparr>) ada_bob_graph
     = \<lparr>nodes = [(''Ada_PERSON'', \<lparr>node_text = ''Ada'', label = ''PERSON'', confidence = 1,
                                     sources = [''doc1''], count = 2\<rparr>)],
        edges = []\<rparr>"
  by (simp add: prune_graph_def nodes_to_keep_def sorted_nodes_ada_bob slice_to_def
      subgraph_copy_def default_config_def)
     (simp add: ada_bob_graph_def)

theorem build_respects_budget_witness:
  "0 \<le> max_nodes (default_config\<lparr>max_nodes := 1\<rparr>) \<and> distinct_nodes empty_graph
   \<and> process_files (default_config\<lparr>max_nodes := 1\<rparr>) empty_graph [ada_ada_bob] = Inr ada_bob_graph
   \<and> int (length (nodes ada_bob_graph)) > max_nodes (default_config\<lparr>max_nodes := 1\<rparr>)
   \<and> build_from_extractions (default_config\<lparr>max_nodes := 1\<rparr>) empty_graph [ada_ada_bob]
       = Inr \<lparr>nodes = [(''Ada_PERSON'', \<lparr>node_text = ''Ada'', label = ''PERSON'', confidence = 1,
                                         sources = [''doc1''], count = 2\<rparr>)],
              edges = []\<rparr>
   \<and> (\<exists>g'. build_from_extractions (default_config\<lparr>max_nodes := 1\<rparr>) empty_graph [ada_ada_bob]
              = Inr g'
          \<and> int (length (nodes g')) \<le> 1 \<and> edges_closed g')"
proof -
  let ?cfg = "default_config\<lparr>max_nodes := 1\<rparr>"
  have m: "0 \<le> max_nodes ?cfg" by simp
  have d: "distinct_nodes empty_graph" by (simp add: distinct_nodes_def empty_graph_def)
  have n: "int (length (nodes ada_bob_graph)) > max_nodes ?cfg"
    by (simp add: ada_bob_graph_def)
  from build_respects_budget[OF m d process_ada_ada_bob] n
  obtain g' where g': "build_from_extractions ?cfg empty_graph [ada_ada_bob] = Inr g'"
    "g' = prune_graph ?cfg ada_bob_graph" "int (length (nodes g')) \<le> max_nodes ?cfg"
    "edges_closed g'"
    by blast
  from g'(1,2) have b: "build_from_extractions ?cfg empty_graph [ada_ada_bob]
       = Inr \<lparr>nodes = [(''Ada_PERSON'', \<lparr>node_text = ''Ada'', label = ''PERSON'', confidence = 1,
                                         sources = [''doc1''], count = 2\<rparr>)],
              edges = []\<rparr>"
    by (simp only: prune_ada_bob)
  from g'(3) have "int (length (nodes g')) \<le> 1" by simp
  with g'(1,4) have e: "\<exists>g'. build_from_extractions ?cfg empty_graph [ada_ada_bob] = Inr g'
          \<and> int (length (nodes g')) \<le> 1 \<and> edges_closed g'"
    by (intro exI[of _ g'] conjI)
  from m d process_ada_ada_bob n b e show ?thesis by (intro conjI)
qed

subsection \<open>Stability of the ranking\<close>

lemma split_two:
  assumes "i < j" and "j < length xs"
  shows "\<exists>us vs ws. xs = us @ xs ! i # vs @ xs ! j # ws"
proof -
  let ?ys = "drop (Suc i) xs"
  have 1: "xs = take i xs @ xs ! i # ?ys"
    using assms by (simp add: id_take_nth_drop)
  have "j - Suc i < length ?ys" using assms by simp
  then have 2: "?ys = take (j - Suc i) ?ys @ ?ys ! (j - Suc i) # drop (Suc (j - Suc i)) ?ys"
    by (rule id_take_nth_drop)
  have 3: "?ys ! (j - Suc i) = xs ! j" using assms by simp
  from 1 2 3 show ?thesis by metis
qed

lemma filter_two_split:
  assumes "distinct (us @ a # vs @ b # ws)"
  shows "filter (\<lambda>x. x = a \<or> x = b) (us @ a # vs @ b # ws) = [a, b]"
proof -
  let ?P = "\<lambda>x. x = a \<or> x = b"
  from assms have "\<forall>x \<in> set us. \<not> ?P x" "\<forall>x \<in> set vs. \<not> ?P x" "\<forall>x \<in> set ws. \<not> ?P x"
    by auto
  then have e: "filter ?P us = []" "filter ?P vs = []" "filter ?P ws = []"
    by (simp_all only: filter_empty_conv)
  have "filter ?P (us @ a # vs @ b # ws)
          = filter ?P us @ a # filter ?P vs @ b # filter ?P ws"
    by simp
  then show ?thesis by (simp only: e append_Nil)
qed

lemma filter_two:
  assumes "distinct xs" and "i < j" and "j < length xs"
  shows "filter (\<lambda>x. x = xs ! i \<or> x = xs ! j) xs = [xs ! i, xs ! j]"
proof -
  from split_two[OF assms(2,3)] obtain us vs ws where
    xs: "xs = us @ xs ! i # vs @ xs ! j # ws" by blast
  define a b where "a = xs ! i" and "b = xs ! j"
  from xs have eq: "xs = us @ a # vs @ b # ws" by (simp add: a_def b_def)
  from assms(1) have "distinct (us @ a # vs @ b # ws)" by (subst (asm) eq)
  then have "filter (\<lambda>x. x = a \<or> x = b) (us @ a # vs @ b # ws) = [a, b]"
    by (rule filter_two_split)
  then have "filter (\<lambda>x. x = a \<or> x = b) xs = [a, b]" by (subst eq)
  then show ?thesis by (simp only: a_def b_def)
qed

lemma two_in_order:
  assumes "filter P r = [a, b]"
  shows "\<exists>i' j'. i' < j' \<and> j' < length r \<and> r ! i' = a \<and> r ! j' = b"
proof -
  from assms obtain us vs where r: "r = us @ a # vs" and vs: "[b] = filter P vs"
    by (auto simp: filter_eq_Cons_iff)
  from vs obtain us' vs' where v: "vs = us' @ b # vs'"
    by (auto simp: Cons_eq_filter_iff)
  have "r ! length us = a" using r by simp
  moreover have "r ! (length us + Suc (length us')) = b"
    using r v by (simp add: nth_append)
  moreover have "length us + Suc (length us') < length r" using r v by simp
  ultimately show ?thesis
    by (intro exI[of _ "length us"] exI[of _ "length us + Suc (length us')"]) simp
qed

lemma sort_key_ties_in_order:
  assumes "distinct xs" and "i < j" and "j < length xs" and "f (xs ! i) = f (xs ! j)"
  shows "\<exists>i' j'. i' < j' \<and> j' < length (sort_key f xs)
           \<and> sort_key f xs ! i' = xs ! i \<and> sort_key f xs ! j' = xs ! j"
proof -
  let ?P = "\<lambda>x. x = xs ! i \<or> x = xs ! j"
  let ?Q = "\<lambda>x. f x = f (xs ! i)"
  have pq: "(\<lambda>x. ?Q x \<and> ?P x) = ?P" using assms(4) by auto
  have "filter ?P (sort_key f xs) = filter ?P (filter ?Q (sort_key f xs))"
    by (simp add: pq)
  also have "\<dots> = filter ?P (filter ?Q xs)"
    by (simp only: sort_key_stable)
  also have "\<dots> = filter ?P xs" by (simp add: pq)
  also have "\<dots> = [xs ! i, xs ! j]" by (rule filter_two[OF assms(1-3)])
  finally show ?thesis by (rule two_in_order)
qed

lemma sorted_nodes_descending: "sorted_wrt (\<lambda>p q. snd p \<ge> snd q) (sorted_nodes g)"
proof -
  have "sorted (map (\<lambda>p. - snd p) (sorted_nodes g))"
    unfolding sorted_nodes_def by (rule sorted_sort_key)
  then show ?thesis by (simp add: sorted_wrt_map)
qed

lemma set_slice_to: "set (slice_to k xs) \<subseteq> set xs"
  by (auto simp: slice_to_def dest: in_set_takeD)

lemma top_texts_total:
  assumes "fst ` set xs \<subseteq> set (map fst (nodes g))"
  shows "\<exists>r. top_texts g xs = Inr r \<and> map snd r = map snd xs
           \<and> list_all2 (\<lambda>t p. map_option node_text (map_of (nodes g) (fst p)) = Some t)
                (map fst r) xs"
  using assms
proof (induction xs)
  case Nil
  then show ?case by simp
next
  case (Cons x xs)
  obtain node score where x: "x = (node, score)" by (cases x)
  from Cons.prems x have "node \<in> set (map fst (nodes g))" by simp
  then obtain d where d: "map_of (nodes g) node = Some d"
    by (metis has_node_def has_node_map_of not_Some_eq)
  from Cons.IH Cons.prems obtain r where r: "top_texts g xs = Inr r" "map snd r = map snd xs"
    "list_all2 (\<lambda>t p. map_option node_text (map_of (nodes g) (fst p)) = Some t) (map fst r) xs"
    by auto
  show ?case using x d r by simp
qed

subsection \<open>The node table is in insertion order\<close>

lemma add_entity_prefix:
  assumes "add_entity g e doc = Inr g'"
  shows "\<exists>ks. map fst (nodes g') = map fst (nodes g) @ ks"
  using add_entity_keys[OF assms] by (metis append_Nil2)

lemma add_entities_prefix:
  "add_entities cfg g es doc = Inr g' \<Longrightarrow> \<exists>ks. map fst (nodes g') = map fst (nodes g) @ ks"
proof (induction es arbitrary: g)
  case Nil
  then show ?case by simp
next
  case (Cons e es)
  show ?case
  proof (cases "get_confidence e \<ge> min_confidence cfg")
    case True
    with Cons.prems obtain g1 where g1: "add_entity g e doc = Inr g1"
      "add_entities cfg g1 es doc = Inr g'"
      by (auto split: sum.splits)
    from add_entity_prefix[OF g1(1)] Cons.IH[OF g1(2)] show ?thesis by auto
  next
    case False
    with Cons.prems have "add_entities cfg g es doc = Inr g'" by simp
    from Cons.IH[OF this] show ?thesis .
  qed
qed

lemma process_file_prefix:
  assumes "process_file cfg g d = Inr g'"
  shows "\<exists>ks. map fst (nodes g') = map fst (nodes g) @ ks"
proof -
  from assms obtain g1 where g1: "add_entities cfg g (doc_entities d) (doc_id d) = Inr g1"
    "add_cooccurrence_edges cfg g1 (doc_entities d) (doc_id d) = Inr g'"
    by (auto simp: process_file_def split: sum.splits)
  from g1(2) have "nodes g' = nodes g1"
    by (auto simp: add_cooccurrence_edges_def split: sum.splits)
  with add_entities_prefix[OF g1(1)] show ?thesis by simp
qed

lemma process_files_prefix:
  "process_files cfg g ds = Inr g' \<Longrightarrow> \<exists>ks. map fst (nodes g') = map fst (nodes g) @ ks"
proof (induction ds arbitrary: g)
  case Nil
  then show ?case by simp
next
  case (Cons d ds)
  from Cons.prems obtain g1 where g1: "process_file cfg g d = Inr g1"
    "process_files cfg g1 ds = Inr g'"
    by (auto split: sum.splits)
  from process_file_prefix[OF g1(1)] Cons.IH[OF g1(2)] show ?case by auto
qed

lemma sorted_nodes_six_linked:
  "sorted_nodes six_linked
     = [(''B_X'', 1), (''C_X'', 1), (''D_X'', 1), (''E_X'', 1), (''A_X'', 4 / 5), (''F_X'', 4 / 5)]"
  by (simp add: sorted_nodes_def degree_centrality_def degree_def six_linked_def six_nodes_def)

lemma degree_centrality_six_linked:
  "degree_centrality six_linked
     = [(''A_X'', 4 / 5), (''B_X'', 1), (''C_X'', 1), (''D_X'', 1), (''E_X'', 1), (''F_X'', 4 / 5)]"
  by (simp add: degree_centrality_def degree_def six_linked_def six_nodes_def)

subsection \<open>The node table of a pruned graph\<close>

lemma subgraph_copy_hashed_same_nodes:
  "mset (nodes (subgraph_copy_hashed rank g keep)) = mset (nodes (subgraph_copy g keep))
   \<and> edges (subgraph_copy_hashed rank g keep) = edges (subgraph_copy g keep)"
  by (simp add: subgraph_copy_hashed_def subgraph_copy_def Let_def)

lemma before_decomp: "before a b xs \<longleftrightarrow> (\<exists>us vs ws. xs = us @ a # vs @ b # ws)"
proof
  assume "before a b xs"
  then obtain i j where ij: "i < j" "j < length xs" "xs ! i = a" "xs ! j = b"
    by (auto simp: before_def)
  from split_two[OF ij(1,2)] ij(3,4) show "\<exists>us vs ws. xs = us @ a # vs @ b # ws" by simp
next
  assume "\<exists>us vs ws. xs = us @ a # vs @ b # ws"
  then obtain us vs ws where xs: "xs = us @ a # vs @ b # ws" by blast
  have "xs ! length us = a" using xs by simp
  moreover have "xs ! (length us + Suc (length vs)) = b" using xs by (simp add: nth_append)
  moreover have "length us + Suc (length vs) < length xs" using xs by simp
  ultimately show "before a b xs"
    unfolding before_def
    by (intro exI[of _ "length us"] exI[of _ "length us + Suc (length vs)"]) simp
qed

lemma before_filter:
  assumes "before a b xs" and "P a" and "P b"
  shows "before a b (filter P xs)"
proof -
  from assms(1) obtain us vs ws where xs: "xs = us @ a # vs @ b # ws"
    by (auto simp: before_decomp)
  have "filter P xs = filter P us @ a # filter P vs @ b # filter P ws"
    using assms(2,3) by (simp add: xs)
  then show ?thesis unfolding before_decomp by blast
qed

lemma before_map:
  assumes "before a b xs"
  shows "before (f a) (f b) (map f xs)"
  using assms unfolding before_def by (metis length_map nth_map order_less_trans)

lemma ranking_keeps_table_order:
  assumes "distinct_nodes g" and "before a b (map fst (nodes g))"
    and "(a, c) \<in> set (degree_centrality g)" and "(b, c) \<in> set (degree_centrality g)"
  shows "before a b (map fst (sorted_nodes g))"
proof -
  let ?xs = "degree_centrality g"
  have keys: "map fst ?xs = map fst (nodes g)" by (rule degree_centrality_keys)
  have dk: "distinct (map fst ?xs)" using assms(1) by (simp add: keys distinct_nodes_def)
  then have dx: "distinct ?xs" by (simp only: distinct_map)
  from assms(2) obtain i j where ij: "i < j" "j < length (map fst ?xs)"
    "map fst ?xs ! i = a" "map fst ?xs ! j = b"
    unfolding before_def keys by blast
  then have len: "i < length ?xs" "j < length ?xs" by simp_all
  have fi: "fst (?xs ! i) = a" and fj: "fst (?xs ! j) = b" using ij len by simp_all
  have "?xs ! i = (a, c)"
    using dk assms(3) fi len(1) by (metis eq_key_imp_eq_value nth_mem prod.collapse)
  moreover have "?xs ! j = (b, c)"
    using dk assms(4) fj len(2) by (metis eq_key_imp_eq_value nth_mem prod.collapse)
  ultimately have eq: "- snd (?xs ! i) = - snd (?xs ! j)" and vi: "?xs ! i = (a, c)"
    and vj: "?xs ! j = (b, c)" by simp_all
  from sort_key_ties_in_order[OF dx ij(1) len(2) eq, folded sorted_nodes_def]
  obtain i' j' where r: "i' < j'" "j' < length (sorted_nodes g)"
    "sorted_nodes g ! i' = ?xs ! i" "sorted_nodes g ! j' = ?xs ! j" by blast
  then have "before (a, c) (b, c) (sorted_nodes g)"
    unfolding before_def vi vj by blast
  from before_map[OF this, of fst] show ?thesis by simp
qed


lemma process_six_doc:
  "process_files (default_config\<lparr>max_nodes := m\<rparr>) empty_graph [six_doc] = Inr six_linked"
  by (simp add: process_file_def six_doc_def six_entities_def six_linked_def six_nodes_def
      add_entity_def empty_graph_def node_id_def has_node_def get_confidence_def
      default_config_def add_cooccurrence_edges_def link_texts_Cons link_targets_Cons
      add_relationship_def nodes_with_text_def has_edge_def co_occurs_def)

lemma nodes_to_keep_six_two:
  "nodes_to_keep (default_config\<lparr>max_nodes := 2\<rparr>) six_linked = [''B_X'', ''C_X'']"
  by (simp add: nodes_to_keep_def sorted_nodes_six_linked slice_to_def)

lemma six_linked_tables:
  "nodes six_linked = nodes six_nodes"
  "edges six_linked = map (\<lambda>k. (k, co_occurs))
     [(''A_X'', ''B_X''), (''A_X'', ''C_X''), (''A_X'', ''D_X''), (''A_X'', ''E_X''),
      (''B_X'', ''C_X''), (''B_X'', ''D_X''), (''B_X'', ''E_X''), (''B_X'', ''F_X''),
      (''C_X'', ''D_X''), (''C_X'', ''E_X''), (''C_X'', ''F_X''),
      (''D_X'', ''E_X''), (''D_X'', ''F_X''),
      (''E_X'', ''F_X'')]"
  by (simp_all add: six_linked_def)

lemma pruned_six_c_first:
  "prune_graph_hashed c_first (default_config\<lparr>max_nodes := 2\<rparr>) six_linked
     = \<lparr>nodes = [(''C_X'', \<lparr>node_text = ''C'', label = ''X'', confidence = 1,
                              sources = [''doc1''], count = 1\<rparr>),
                 (''B_X'', \<lparr>node_text = ''B'', label = ''X'', confidence = 1,
                              sources = [''doc1''], count = 1\<rparr>)],
        edges = [((''B_X'', ''C_X''), co_occurs)]\<rparr>"
  by (simp add: prune_graph_hashed_def subgraph_copy_hashed_def nodes_to_keep_six_two
      six_linked_tables six_nodes_def c_first_def Let_def)

lemma pruned_six_all_alike:
  "prune_graph_hashed all_alike (default_config\<lparr>max_nodes := 2\<rparr>) six_linked
     = \<lparr>nodes = [(''B_X'', \<lparr>node_text = ''B'', label = ''X'', confidence = 1,
                              sources = [''doc1''], count = 1\<rparr>),
                 (''C_X'', \<lparr>node_text = ''C'', label = ''X'', confidence = 1,
                              sources = [''doc1''], count = 1\<rparr>)],
        edges = [((''B_X'', ''C_X''), co_occurs)]\<rparr>"
  by (simp add: prune_graph_hashed_def subgraph_copy_hashed_def nodes_to_keep_six_two
      six_linked_tables six_nodes_def all_alike_def Let_def)


lemma prune_graph_hashed_distinct:
  assumes "distinct_nodes g"
  shows "distinct_nodes (prune_graph_hashed rank cfg g)"
proof -
  let ?kept = "filter (\<lambda>p. fst p \<in> set (nodes_to_keep cfg g)) (nodes g)"
  have "mset (nodes (prune_graph_hashed rank cfg g)) = mset ?kept"
    by (simp add: prune_graph_hashed_def subgraph_copy_hashed_def Let_def)
  then have "mset (map fst (nodes (prune_graph_hashed rank cfg g))) = mset (map fst ?kept)"
    by (metis mset_map)
  moreover have "distinct (map fst ?kept)"
    using assms by (simp add: distinct_nodes_def distinct_map_filter)
  ultimately show ?thesis
    unfolding distinct_nodes_def by (metis mset_eq_imp_distinct_iff)
qed

lemma prune_graph_hashed_keys:
  "set (map fst (nodes (prune_graph_hashed rank cfg g)))
     = set (nodes_to_keep cfg g) \<inter> set (map fst (nodes g))"
  by (auto simp: prune_graph_hashed_def subgraph_copy_hashed_def Let_def)

lemma pruned_ranking_keeps_insertion_order:
  assumes "distinct_nodes g"
    and "nodes (prune_graph_hashed rank cfg g)
           = filter (\<lambda>p. fst p \<in> set (nodes_to_keep cfg g)) (nodes g)"
    and "before a b (map fst (nodes g))"
    and "(a, c) \<in> set (degree_centrality (prune_graph_hashed rank cfg g))"
    and "(b, c) \<in> set (degree_centrality (prune_graph_hashed rank cfg g))"
  shows "before a b (map fst (sorted_nodes (prune_graph_hashed rank cfg g)))"
proof -
  let ?g' = "prune_graph_hashed rank cfg g"
  let ?S = "set (nodes_to_keep cfg g)"
  have keys: "map fst (nodes ?g') = filter (\<lambda>k. k \<in> ?S) (map fst (nodes g))"
    by (simp add: assms(2) filter_map comp_def)
  have "a \<in> set (map fst (degree_centrality ?g'))" "b \<in> set (map fst (degree_centrality ?g'))"
    using assms(4,5) by force+
  then have "a \<in> set (map fst (nodes ?g'))" "b \<in> set (map fst (nodes ?g'))"
    by (simp_all only: degree_centrality_keys)
  then have "a \<in> ?S" "b \<in> ?S" unfolding keys by simp_all
  from before_filter[OF assms(3), of "\<lambda>k. k \<in> ?S", OF this]
  have "before a b (map fst (nodes ?g'))" by (simp only: keys)
  from ranking_keeps_table_order[OF prune_graph_hashed_distinct[OF assms(1)] this assms(4,5)]
  show ?thesis .
qed

text \<open>
  C6 (as the code has it). The ranking used by the pruning and by the top entities
  lists the nodes by centrality, highest first, and two nodes of equal centrality
  stand in it in the order of the node table of the graph that is ranked: the sort is
  stable. The pruning keeps the nodes of a prefix of the ranking and the top entities
  are a prefix of it. The node table of an ingested graph is in insertion order
  (\<^verbatim>\<open>add_entity\<close> appends a new identifier and leaves the others in place, and so does
  a whole ingestion), so the pruning, which ranks the ingested graph, breaks ties by
  insertion order. A pruned graph that keeps at least half of the nodes has them in
  insertion order still, and ties of its ranking follow the insertion order; one that
  keeps fewer has them in the set order of the run, and ties of its ranking follow
  that order.
\<close>

theorem ranking_ties_by_table_order:
  assumes "distinct_nodes g"
  shows "sorted_wrt (\<lambda>p q. snd p \<ge> snd q) (sorted_nodes g)
       \<and> mset (sorted_nodes g) = mset (degree_centrality g)
       \<and> map fst (degree_centrality g) = map fst (nodes g)
       \<and> (\<forall>a b c. before a b (map fst (nodes g))
                \<and> (a, c) \<in> set (degree_centrality g) \<and> (b, c) \<in> set (degree_centrality g) \<longrightarrow>
              before a b (map fst (sorted_nodes g)))
       \<and> nodes_to_keep cfg g = map fst (slice_to (max_nodes cfg) (sorted_nodes g))
       \<and> set (map fst (nodes (prune_graph_hashed rank cfg g))) = set (nodes_to_keep cfg g)
       \<and> (\<exists>r. get_top_entities g n = Inr r
              \<and> map snd r = map snd (slice_to n (sorted_nodes g))
              \<and> list_all2 (\<lambda>t p. map_option node_text (map_of (nodes g) (fst p)) = Some t)
                   (map fst r) (slice_to n (sorted_nodes g)))
       \<and> (\<forall>e doc g'. add_entity g e doc = Inr g' \<longrightarrow>
            (\<exists>k. entity_key e = Some k
               \<and> map fst (nodes g') =
                   (if has_node g k then map fst (nodes g) else map fst (nodes g) @ [k])))
       \<and> (\<forall>files g'. process_files cfg g files = Inr g' \<longrightarrow>
            (\<exists>ks. map fst (nodes g') = map fst (nodes g) @ ks))
       \<and> (2 * length (filter (\<lambda>p. fst p \<in> set (nodes_to_keep cfg g)) (nodes g))
             \<ge> length (nodes g) \<longrightarrow>
            nodes (prune_graph_hashed rank cfg g)
              = filter (\<lambda>p. fst p \<in> set (nodes_to_keep cfg g)) (nodes g)
          \<and> (\<forall>a b c. before a b (map fst (nodes g))
                \<and> (a, c) \<in> set (degree_centrality (prune_graph_hashed rank cfg g))
                \<and> (b, c) \<in> set (degree_centrality (prune_graph_hashed rank cfg g)) \<longrightarrow>
              before a b (map fst (sorted_nodes (prune_graph_hashed rank cfg g)))))
       \<and> (2 * length (filter (\<lambda>p. fst p \<in> set (nodes_to_keep cfg g)) (nodes g))
             < length (nodes g) \<longrightarrow>
            nodes (prune_graph_hashed rank cfg g)
              = sort_key (\<lambda>p. rank (fst p))
                  (filter (\<lambda>p. fst p \<in> set (nodes_to_keep cfg g)) (nodes g))
          \<and> (\<forall>a b c. before a b (map fst (nodes (prune_graph_hashed rank cfg g)))
                \<and> (a, c) \<in> set (degree_centrality (prune_graph_hashed rank cfg g))
                \<and> (b, c) \<in> set (degree_centrality (prune_graph_hashed rank cfg g)) \<longrightarrow>
              before a b (map fst (sorted_nodes (prune_graph_hashed rank cfg g)))))"
proof -
  let ?g' = "prune_graph_hashed rank cfg g"
  let ?kept = "filter (\<lambda>p. fst p \<in> set (nodes_to_keep cfg g)) (nodes g)"
  have keys: "map fst (degree_centrality g) = map fst (nodes g)" by (rule degree_centrality_keys)
  have desc: "sorted_wrt (\<lambda>p q. snd p \<ge> snd q) (sorted_nodes g)"
    by (rule sorted_nodes_descending)
  have perm: "mset (sorted_nodes g) = mset (degree_centrality g)" by (simp add: sorted_nodes_def)
  have ties: "\<forall>a b c. before a b (map fst (nodes g))
                \<and> (a, c) \<in> set (degree_centrality g) \<and> (b, c) \<in> set (degree_centrality g) \<longrightarrow>
              before a b (map fst (sorted_nodes g))"
    using ranking_keeps_table_order[OF assms] by blast
  have keep: "nodes_to_keep cfg g = map fst (slice_to (max_nodes cfg) (sorted_nodes g))"
    by (simp add: nodes_to_keep_def)
  have sk: "set (map fst (sorted_nodes g)) = set (map fst (nodes g))"
    using sorted_nodes_keys[of g] by (rule mset_eq_setD)
  have sub: "fst ` set (slice_to k (sorted_nodes g)) \<subseteq> set (map fst (nodes g))" for k
    using set_slice_to[of k "sorted_nodes g"] sk by auto
  have "set (nodes_to_keep cfg g) \<subseteq> set (map fst (nodes g))"
    using sub[of "max_nodes cfg"] by (simp add: keep)
  then have pruned: "set (map fst (nodes ?g')) = set (nodes_to_keep cfg g)"
    by (simp only: prune_graph_hashed_keys Int_absorb2)
  have top: "\<exists>r. get_top_entities g n = Inr r
              \<and> map snd r = map snd (slice_to n (sorted_nodes g))
              \<and> list_all2 (\<lambda>t p. map_option node_text (map_of (nodes g) (fst p)) = Some t)
                   (map fst r) (slice_to n (sorted_nodes g))"
    unfolding get_top_entities_def by (rule top_texts_total[OF sub])
  have ins: "\<forall>e doc g'. add_entity g e doc = Inr g' \<longrightarrow>
            (\<exists>k. entity_key e = Some k
               \<and> map fst (nodes g') =
                   (if has_node g k then map fst (nodes g) else map fst (nodes g) @ [k]))"
    using add_entity_keys by blast
  have ing: "\<forall>files g'. process_files cfg g files = Inr g' \<longrightarrow>
            (\<exists>ks. map fst (nodes g') = map fst (nodes g) @ ks)"
    using process_files_prefix by blast
  have half: "2 * length ?kept \<ge> length (nodes g) \<longrightarrow>
            nodes ?g' = ?kept
          \<and> (\<forall>a b c. before a b (map fst (nodes g))
                \<and> (a, c) \<in> set (degree_centrality ?g') \<and> (b, c) \<in> set (degree_centrality ?g') \<longrightarrow>
              before a b (map fst (sorted_nodes ?g')))"
  proof
    assume h: "2 * length ?kept \<ge> length (nodes g)"
    then have n: "nodes ?g' = ?kept"
      by (simp add: prune_graph_hashed_def subgraph_copy_hashed_def Let_def)
    from pruned_ranking_keeps_insertion_order[OF assms n] n
    show "nodes ?g' = ?kept
          \<and> (\<forall>a b c. before a b (map fst (nodes g))
                \<and> (a, c) \<in> set (degree_centrality ?g') \<and> (b, c) \<in> set (degree_centrality ?g') \<longrightarrow>
              before a b (map fst (sorted_nodes ?g')))"
      by blast
  qed
  have few: "2 * length ?kept < length (nodes g) \<longrightarrow>
            nodes ?g' = sort_key (\<lambda>p. rank (fst p)) ?kept
          \<and> (\<forall>a b c. before a b (map fst (nodes ?g'))
                \<and> (a, c) \<in> set (degree_centrality ?g') \<and> (b, c) \<in> set (degree_centrality ?g') \<longrightarrow>
              before a b (map fst (sorted_nodes ?g')))"
  proof
    assume h: "2 * length ?kept < length (nodes g)"
    then have n: "nodes ?g' = sort_key (\<lambda>p. rank (fst p)) ?kept"
      by (simp add: prune_graph_hashed_def subgraph_copy_hashed_def Let_def)
    from ranking_keeps_table_order[OF prune_graph_hashed_distinct[OF assms]] n
    show "nodes ?g' = sort_key (\<lambda>p. rank (fst p)) ?kept
          \<and> (\<forall>a b c. before a b (map fst (nodes ?g'))
                \<and> (a, c) \<in> set (degree_centrality ?g') \<and> (b, c) \<in> set (degree_centrality ?g') \<longrightarrow>
              before a b (map fst (sorted_nodes ?g')))"
      by blast
  qed
  from desc perm keys ties keep pruned top ins ing half few show ?thesis by (intro conjI)
qed


lemma nodes_to_keep_six_three:
  "nodes_to_keep (default_config\<lparr>max_nodes := 3\<rparr>) six_linked = [''B_X'', ''C_X'', ''D_X'']"
  by (simp add: nodes_to_keep_def sorted_nodes_six_linked slice_to_def)

theorem ranking_ties_by_table_order_witness:
  "distinct_nodes six_linked
   \<and> before ''A_X'' ''F_X'' (map fst (nodes six_linked))
   \<and> (''A_X'', 4 / 5) \<in> set (degree_centrality six_linked)
   \<and> (''F_X'', 4 / 5) \<in> set (degree_centrality six_linked)
   \<and> before ''A_X'' ''F_X'' (map fst (sorted_nodes six_linked))
   \<and> map fst (sorted_nodes six_linked) = [''B_X'', ''C_X'', ''D_X'', ''E_X'', ''A_X'', ''F_X'']
   \<and> nodes_to_keep (default_config\<lparr>max_nodes := 3\<rparr>) six_linked = [''B_X'', ''C_X'', ''D_X'']
   \<and> length (nodes six_linked)
        \<le> 2 * length (filter (\<lambda>p. fst p \<in> set [''B_X'', ''C_X'', ''D_X'']) (nodes six_linked))
   \<and> map fst (nodes (prune_graph_hashed c_first (default_config\<lparr>max_nodes := 3\<rparr>) six_linked))
        = [''B_X'', ''C_X'', ''D_X'']"
proof -
  let ?cfg = "default_config\<lparr>max_nodes := 3\<rparr>"
  have d: "distinct_nodes six_linked"
    by (simp add: distinct_nodes_def six_linked_def six_nodes_def)
  have k: "map fst (nodes six_linked) = [''A_X'', ''B_X'', ''C_X'', ''D_X'', ''E_X'', ''F_X'']"
    by (simp add: six_linked_def six_nodes_def)
  have b: "before ''A_X'' ''F_X'' (map fst (nodes six_linked))"
    unfolding before_def k by (intro exI[of _ 0] exI[of _ 5]) simp
  have m: "(''A_X'', 4 / 5) \<in> set (degree_centrality six_linked)"
    "(''F_X'', 4 / 5) \<in> set (degree_centrality six_linked)"
    by (simp_all add: degree_centrality_six_linked)
  note r = ranking_ties_by_table_order[OF d, of ?cfg c_first 3]
  from r b m have t: "before ''A_X'' ''F_X'' (map fst (sorted_nodes six_linked))"
    by blast
  have s: "map fst (sorted_nodes six_linked) = [''B_X'', ''C_X'', ''D_X'', ''E_X'', ''A_X'', ''F_X'']"
    by (simp add: sorted_nodes_six_linked)
  have h: "length (nodes six_linked)
        \<le> 2 * length (filter (\<lambda>p. fst p \<in> set [''B_X'', ''C_X'', ''D_X'']) (nodes six_linked))"
    by (simp add: six_linked_tables six_nodes_def)
  then have h': "length (nodes six_linked)
        \<le> 2 * length (filter (\<lambda>p. fst p \<in> set (nodes_to_keep ?cfg six_linked)) (nodes six_linked))"
    by (simp only: nodes_to_keep_six_three)
  from r h' have "nodes (prune_graph_hashed c_first ?cfg six_linked)
      = filter (\<lambda>p. fst p \<in> set (nodes_to_keep ?cfg six_linked)) (nodes six_linked)"
    by blast
  then have p: "map fst (nodes (prune_graph_hashed c_first ?cfg six_linked))
        = [''B_X'', ''C_X'', ''D_X'']"
    by (simp add: nodes_to_keep_six_three six_linked_tables six_nodes_def)
  from d b m t s nodes_to_keep_six_three h p show ?thesis by (intro conjI)
qed

text \<open>The top entities of a graph pruned to two of six nodes, under two set orders:
  \<^verbatim>\<open>B\<close> was inserted before \<^verbatim>\<open>C\<close>, both have the same centrality, and one run lists
  \<^verbatim>\<open>C\<close> first, the other \<^verbatim>\<open>B\<close>.\<close>

theorem top_entities_after_pruning_counterexample:
  "process_files (default_config\<lparr>max_nodes := 2\<rparr>) empty_graph [six_doc] = Inr six_linked
   \<and> map fst (nodes six_linked) = [''A_X'', ''B_X'', ''C_X'', ''D_X'', ''E_X'', ''F_X'']
   \<and> build_from_extractions_hashed c_first (default_config\<lparr>max_nodes := 2\<rparr>) empty_graph [six_doc]
       = Inr (prune_graph_hashed c_first (default_config\<lparr>max_nodes := 2\<rparr>) six_linked)
   \<and> degree_centrality (prune_graph_hashed c_first (default_config\<lparr>max_nodes := 2\<rparr>) six_linked)
       = [(''C_X'', 1), (''B_X'', 1)]
   \<and> get_top_entities (prune_graph_hashed c_first (default_config\<lparr>max_nodes := 2\<rparr>) six_linked) 10
       = Inr [(''C'', 1), (''B'', 1)]
   \<and> build_from_extractions_hashed all_alike (default_config\<lparr>max_nodes := 2\<rparr>) empty_graph [six_doc]
       = Inr (prune_graph_hashed all_alike (default_config\<lparr>max_nodes := 2\<rparr>) six_linked)
   \<and> get_top_entities (prune_graph_hashed all_alike (default_config\<lparr>max_nodes := 2\<rparr>) six_linked) 10
       = Inr [(''B'', 1), (''C'', 1)]"
proof -
  let ?cfg = "default_config\<lparr>max_nodes := 2\<rparr>"
  have k: "map fst (nodes six_linked) = [''A_X'', ''B_X'', ''C_X'', ''D_X'', ''E_X'', ''F_X'']"
    by (simp add: six_linked_def six_nodes_def)
  have n: "int (length (nodes six_linked)) > max_nodes ?cfg"
    by (simp add: six_linked_tables six_nodes_def)
  have b1: "build_from_extractions_hashed c_first ?cfg empty_graph [six_doc]
       = Inr (prune_graph_hashed c_first ?cfg six_linked)"
    unfolding build_from_extractions_hashed_def process_six_doc using n by simp
  have b2: "build_from_extractions_hashed all_alike ?cfg empty_graph [six_doc]
       = Inr (prune_graph_hashed all_alike ?cfg six_linked)"
    unfolding build_from_extractions_hashed_def process_six_doc using n by simp
  have c1: "degree_centrality (prune_graph_hashed c_first ?cfg six_linked)
       = [(''C_X'', 1), (''B_X'', 1)]"
    by (simp add: pruned_six_c_first degree_centrality_def degree_def)
  have t1: "get_top_entities (prune_graph_hashed c_first ?cfg six_linked) 10
       = Inr [(''C'', 1), (''B'', 1)]"
    by (simp add: pruned_six_c_first get_top_entities_def sorted_nodes_def degree_centrality_def
        degree_def slice_to_def)
  have t2: "get_top_entities (prune_graph_hashed all_alike ?cfg six_linked) 10
       = Inr [(''B'', 1), (''C'', 1)]"
    by (simp add: pruned_six_all_alike get_top_entities_def sorted_nodes_def degree_centrality_def
        degree_def slice_to_def)
  from process_six_doc[of 2] k b1 c1 t1 b2 t2 show ?thesis by (intro conjI)
qed

subsection \<open>The string form of a list\<close>

lemma hex_value_digit:
  assumes "k < 16"
  shows "hex_value (hex_digit k) = k"
proof -
  from assms consider "k = 0" | "k = 1" | "k = 2" | "k = 3" | "k = 4" | "k = 5" | "k = 6"
    | "k = 7" | "k = 8" | "k = 9" | "k = 10" | "k = 11" | "k = 12" | "k = 13" | "k = 14"
    | "k = 15"
    by atomize_elim presburger
  then show ?thesis
    by cases (simp_all add: hex_value_def hex_digit_def)
qed

lemma char_of_hex:
  "char_of (16 * hex_value (hex_digit (of_char c div 16)) + hex_value (hex_digit (of_char c))) = c"
proof -
  let ?n = "of_char c :: nat"
  have lt: "?n < 256" by simp
  then have "?n div 16 < 16" by presburger
  then have h: "hex_value (hex_digit (?n div 16)) = ?n div 16"
    by (rule hex_value_digit)
  have "hex_digit ?n = hex_digit (?n mod 16)" by (simp add: hex_digit_def)
  then have l: "hex_value (hex_digit ?n) = ?n mod 16"
    by (simp add: hex_value_digit)
  have "16 * (?n div 16) + ?n mod 16 = ?n" by simp
  then show ?thesis by (simp only: h l char_of_comp_of_char id_apply comp_apply char_of_char)
qed

lemma decode_repr_char:
  assumes "q = CHR 0x27 \<or> q = CHR 0x22"
  shows "decode_body q (repr_char q c @ rest)
           = map_option (\<lambda>r. (c # fst r, snd r)) (decode_body q rest)"
proof -
  have q: "q \<noteq> CHR 0x5C" "q \<noteq> CHR ''x''" "unescape q = q"
    using assms by (auto simp: unescape_def)
  consider (quote) "c = q" | (backslash) "c = CHR 0x5C" | (tab) "c = CHR 0x09"
    | (lf) "c = CHR 0x0A" | (cr) "c = CHR 0x0D"
    | (hex) "c \<noteq> q" "c \<noteq> CHR 0x5C" "c \<noteq> CHR 0x09" "c \<noteq> CHR 0x0A" "c \<noteq> CHR 0x0D"
        "\<not> printable c"
    | (plain) "c \<noteq> q" "c \<noteq> CHR 0x5C" "c \<noteq> CHR 0x09" "c \<noteq> CHR 0x0A" "c \<noteq> CHR 0x0D"
        "printable c"
    by blast
  then show ?thesis
  proof cases
    case quote
    then show ?thesis using q by (simp add: repr_char_def)
  next
    case backslash
    then show ?thesis using q by (simp add: repr_char_def unescape_def)
  next
    case tab
    then show ?thesis using q assms by (auto simp: repr_char_def unescape_def)
  next
    case lf
    then show ?thesis using q assms by (auto simp: repr_char_def unescape_def)
  next
    case cr
    then show ?thesis using q assms by (auto simp: repr_char_def unescape_def)
  next
    case hex
    then show ?thesis using q by (simp add: repr_char_def char_of_hex)
  next
    case plain
    then show ?thesis by (simp add: repr_char_def)
  qed
qed

lemma decode_body_repr:
  assumes "q = CHR 0x27 \<or> q = CHR 0x22"
  shows "decode_body q (concat (map (repr_char q) s) @ q # rest) = Some (s, rest)"
  by (induction s) (simp_all add: decode_repr_char[OF assms])

lemma decode_repr_str: "decode_repr (repr_str s @ rest) = Some (s, rest)"
proof -
  let ?q = "if CHR 0x27 \<in> set s \<and> CHR 0x22 \<notin> set s then CHR 0x22 else CHR 0x27"
  have q: "?q = CHR 0x27 \<or> ?q = CHR 0x22" by simp
  have "repr_str s @ rest = ?q # (concat (map (repr_char ?q) s) @ ?q # rest)"
    by (simp add: repr_str_def Let_def)
  then have "decode_repr (repr_str s @ rest)
               = decode_body ?q (concat (map (repr_char ?q) s) @ ?q # rest)"
    using q by (simp only: decode_repr_def list.case) simp
  then show ?thesis by (simp only: decode_body_repr[OF q])
qed

lemma repr_str_inj: "repr_str s = repr_str t \<Longrightarrow> s = t"
  using decode_repr_str[of s "[]"] decode_repr_str[of t "[]"] by simp











end
